theory Spec2Isabelle
  imports Main "HOL-Library.AList" "HOL-Library.Sublist"
begin

unbundle bit_operations_syntax

section \<open>JSON data and the JavaScript operations the cache applies to it\<close>

text \<open>
  The cache keeps its data in JSON files.  A JSON value is modelled as a term; an object is
  an association list, with distinct names, in the order of its own properties (insertion
  order: the property names that occur, 32-character digests and the field names of a
  record, are never array indices, so JavaScript keeps them in insertion order).  Numbers
  are modelled as integers: floating point (\<^verbatim>\<open>NaN\<close>, \<^verbatim>\<open>-0\<close>, rounding) is outside this
  model.  Deep equality of two JSON values is equality of the terms.
\<close>

datatype json =
    JNull
  | JBool bool
  | JNum int
  | JStr string
  | JArr "json list"
  | JObj "(string \<times> json) list"

text \<open>What a JavaScript expression of the cache can evaluate to: \<^verbatim>\<open>undefined\<close> or JSON data.\<close>

datatype jsvalue = Undefined | J json

datatype error =
    TypeError string  \<comment> \<open>a JavaScript \<^verbatim>\<open>TypeError\<close> with its message\<close>
  | SystemError string  \<comment> \<open>an error thrown by \<^verbatim>\<open>fs\<close>, with its code\<close>

text \<open>Truthiness, as \<^verbatim>\<open>if (x)\<close> and \<^verbatim>\<open>x && y\<close> test it.\<close>

fun truthy :: "json \<Rightarrow> bool" where
  "truthy JNull = False"
| "truthy (JBool b) = b"
| "truthy (JNum n) = (n \<noteq> 0)"
| "truthy (JStr s) = (s \<noteq> [])"
| "truthy (JArr xs) = True"
| "truthy (JObj ps) = True"

fun truthy_value :: "jsvalue \<Rightarrow> bool" where
  "truthy_value Undefined = False"
| "truthy_value (J v) = truthy v"

text \<open>\<^verbatim>\<open>typeof x === 'string'\<close>.\<close>

fun is_string :: "jsvalue \<Rightarrow> bool" where
  "is_string (J (JStr s)) = True"
| "is_string x = False"

text \<open>
  Reading a property, \<^verbatim>\<open>x[name]\<close> or \<^verbatim>\<open>x.name\<close>.  The cache reads three kinds of
  names only: a digest (32 hexadecimal characters), \<^verbatim>\<open>key\<close> and \<^verbatim>\<open>value\<close>.  None of
  them is an array index, \<^verbatim>\<open>length\<close> or a property inherited from a prototype, so on
  an array, a string, a number or a boolean the read yields \<^verbatim>\<open>undefined\<close>, and on an
  object it yields the own property if there is one.  Reading from \<^verbatim>\<open>null\<close> throws.
\<close>

fun member :: "json \<Rightarrow> string \<Rightarrow> error + jsvalue" where
  "member JNull name = Inl (TypeError ''Cannot read properties of null'')"
| "member (JObj ps) name = Inr (case map_of ps name of None \<Rightarrow> Undefined | Some v \<Rightarrow> J v)"
| "member data name = Inr Undefined"

text \<open>
  The assignment \<^verbatim>\<open>data[name] = v\<close> followed by \<^verbatim>\<open>JSON.stringify(data)\<close>, in the strict
  mode of a class body.  On \<^verbatim>\<open>null\<close> and on a primitive it throws; an array takes the
  named property, which \<^verbatim>\<open>JSON.stringify\<close> does not write, so the document written is
  the array as it was; an object gets the property replaced in place or appended.
\<close>

fun assign :: "json \<Rightarrow> string \<Rightarrow> json \<Rightarrow> error + json" where
  "assign JNull name v = Inl (TypeError ''Cannot set properties of null'')"
| "assign (JObj ps) name v = Inr (JObj (AList.update name v ps))"
| "assign (JArr xs) name v = Inr (JArr xs)"
| "assign data name v = Inl (TypeError ''Cannot create property'')"

text \<open>\<^verbatim>\<open>delete data[name]\<close>, reached only when \<^verbatim>\<open>data[name]\<close> is truthy.\<close>

fun delete_member :: "json \<Rightarrow> string \<Rightarrow> json" where
  "delete_member (JObj ps) name = JObj (AList.delete name ps)"
| "delete_member data name = data"

text \<open>\<^verbatim>\<open>Object.keys(data)\<close>, for the data \<^verbatim>\<open>removeItem\<close> can hold at that point.\<close>

fun objectKeys :: "json \<Rightarrow> string list" where
  "objectKeys (JObj ps) = map fst ps"
| "objectKeys data = []"

text \<open>\<^verbatim>\<open>Object.values(data)\<close>: it throws on \<^verbatim>\<open>null\<close>, and lists the characters of a string.\<close>

fun objectValues :: "json \<Rightarrow> error + json list" where
  "objectValues JNull = Inl (TypeError ''Cannot convert undefined or null to object'')"
| "objectValues (JObj ps) = Inr (map snd ps)"
| "objectValues (JArr xs) = Inr xs"
| "objectValues (JStr s) = Inr (map (\<lambda>c. JStr [c]) s)"
| "objectValues data = Inr []"

text \<open>\<^verbatim>\<open>s.charAt(i)\<close> is the empty string out of range; \<^verbatim>\<open>s.endsWith(suffix)\<close>.\<close>

definition charAt :: "string \<Rightarrow> nat \<Rightarrow> string" where
  "charAt s i = (if i < length s then [s ! i] else [])"

definition endsWith :: "string \<Rightarrow> string \<Rightarrow> bool" where
  "endsWith s suf = (length suf \<le> length s \<and> drop (length s - length suf) s = suf)"


section \<open>The digest: MD5 in lowercase hexadecimal\<close>

text \<open>
  \<^verbatim>\<open>crypto.createHash('md5').update(s).digest('hex')\<close> (RFC 1321).  A string is the list
  of its UTF-8 bytes; 32-bit words are natural numbers with the wrap-around written out.
\<close>

definition md5_K :: "nat list" where
  "md5_K = [
    0xd76aa478, 0xe8c7b756, 0x242070db, 0xc1bdceee, 0xf57c0faf, 0x4787c62a, 0xa8304613, 0xfd469501,
    0x698098d8, 0x8b44f7af, 0xffff5bb1, 0x895cd7be, 0x6b901122, 0xfd987193, 0xa679438e, 0x49b40821,
    0xf61e2562, 0xc040b340, 0x265e5a51, 0xe9b6c7aa, 0xd62f105d, 0x02441453, 0xd8a1e681, 0xe7d3fbc8,
    0x21e1cde6, 0xc33707d6, 0xf4d50d87, 0x455a14ed, 0xa9e3e905, 0xfcefa3f8, 0x676f02d9, 0x8d2a4c8a,
    0xfffa3942, 0x8771f681, 0x6d9d6122, 0xfde5380c, 0xa4beea44, 0x4bdecfa9, 0xf6bb4b60, 0xbebfbc70,
    0x289b7ec6, 0xeaa127fa, 0xd4ef3085, 0x04881d05, 0xd9d4d039, 0xe6db99e5, 0x1fa27cf8, 0xc4ac5665,
    0xf4292244, 0x432aff97, 0xab9423a7, 0xfc93a039, 0x655b59c3, 0x8f0ccc92, 0xffeff47d, 0x85845dd1,
    0x6fa87e4f, 0xfe2ce6e0, 0xa3014314, 0x4e0811a1, 0xf7537e82, 0xbd3af235, 0x2ad7d2bb, 0xeb86d391]"

definition md5_S :: "nat list" where
  "md5_S = [
    7, 12, 17, 22, 7, 12, 17, 22, 7, 12, 17, 22, 7, 12, 17, 22,
    5, 9, 14, 20, 5, 9, 14, 20, 5, 9, 14, 20, 5, 9, 14, 20,
    4, 11, 16, 23, 4, 11, 16, 23, 4, 11, 16, 23, 4, 11, 16, 23,
    6, 10, 15, 21, 6, 10, 15, 21, 6, 10, 15, 21, 6, 10, 15, 21]"

definition add32 :: "nat \<Rightarrow> nat \<Rightarrow> nat" where
  "add32 x y = (x + y) mod 2 ^ 32"

definition not32 :: "nat \<Rightarrow> nat" where
  "not32 x = x XOR 0xffffffff"

definition rotl32 :: "nat \<Rightarrow> nat \<Rightarrow> nat" where
  "rotl32 x n = (x * 2 ^ n) mod 2 ^ 32 + x div 2 ^ (32 - n)"

definition md5_F :: "nat \<Rightarrow> nat \<Rightarrow> nat \<Rightarrow> nat \<Rightarrow> nat" where
  "md5_F i b c d =
     (if i < 16 then (b AND c) OR (not32 b AND d)
      else if i < 32 then (d AND b) OR (not32 d AND c)
      else if i < 48 then b XOR c XOR d
      else c XOR (b OR not32 d))"

definition md5_g :: "nat \<Rightarrow> nat" where
  "md5_g i =
     (if i < 16 then i
      else if i < 32 then (5 * i + 1) mod 16
      else if i < 48 then (3 * i + 5) mod 16
      else (7 * i) mod 16)"

type_synonym md5_state = "nat \<times> nat \<times> nat \<times> nat"

fun md5_step :: "nat list \<Rightarrow> nat \<Rightarrow> md5_state \<Rightarrow> md5_state" where
  "md5_step m i (a, b, c, d) =
     (d, add32 b (rotl32 (add32 (add32 (add32 a (md5_F i b c d)) (md5_K ! i)) (m ! md5_g i))
                    (md5_S ! i)), b, c)"

fun add_state :: "md5_state \<Rightarrow> md5_state \<Rightarrow> md5_state" where
  "add_state (a0, b0, c0, d0) (a, b, c, d) = (add32 a0 a, add32 b0 b, add32 c0 c, add32 d0 d)"

definition le_word :: "nat list \<Rightarrow> nat" where
  "le_word bs = bs ! 0 + 256 * bs ! 1 + 65536 * bs ! 2 + 16777216 * bs ! 3"

fun chunks :: "nat \<Rightarrow> 'a list \<Rightarrow> 'a list list" where
  "chunks n [] = []"
| "chunks n xs = (if n = 0 then [xs] else take n xs # chunks n (drop n xs))"

definition md5_block :: "md5_state \<Rightarrow> nat list \<Rightarrow> md5_state" where
  "md5_block st blk = add_state st (fold (md5_step (map le_word (chunks 4 blk))) [0..<64] st)"

definition md5_pad :: "nat list \<Rightarrow> nat list" where
  "md5_pad msg = (let n = length msg; bits = (8 * n) mod 2 ^ 64
     in msg @ [128] @ replicate ((119 - n mod 64) mod 64) 0
        @ map (\<lambda>i. (bits div 256 ^ i) mod 256) [0..<8])"

definition md5_digest :: "string \<Rightarrow> md5_state" where
  "md5_digest s = fold (\<lambda>blk st. md5_block st blk) (chunks 64 (md5_pad (map of_char s)))
     (0x67452301, 0xefcdab89, 0x98badcfe, 0x10325476)"

definition hex_digit :: "nat \<Rightarrow> char" where
  "hex_digit n = ''0123456789abcdef'' ! (n mod 16)"

definition hex_byte :: "nat \<Rightarrow> string" where
  "hex_byte b = [hex_digit (b div 16), hex_digit b]"

definition word_bytes :: "nat \<Rightarrow> nat list" where
  "word_bytes w = map (\<lambda>i. (w div 256 ^ i) mod 256) [0..<4]"

fun digest_hex :: "md5_state \<Rightarrow> string" where
  "digest_hex (a, b, c, d) =
     concat (map hex_byte (word_bytes a @ word_bytes b @ word_bytes c @ word_bytes d))"

text \<open>\<^verbatim>\<open>_getMd5(key)\<close>, for a key that is a string (\<^verbatim>\<open>String(key)\<close> is then the key).\<close>

definition getMd5 :: "string \<Rightarrow> string" where
  "getMd5 key = digest_hex (md5_digest key)"


section \<open>The file system\<close>

text \<open>
  A file system is a tree.  A directory lists its entries in the order \<^verbatim>\<open>readdirSync\<close>
  returns them; a new entry goes to the end of the list.  The cache reads a file only through
  \<^verbatim>\<open>JSON.parse\<close> and writes it only through \<^verbatim>\<open>JSON.stringify\<close>, so the content of a file
  is what \<^verbatim>\<open>JSON.parse\<close> makes of its text: a syntax error or a JSON value, and writing
  the text of a value gives a file that parses to that value.  Symbolic links, permissions
  and a full disk are outside the model: a system call fails only for the shape of the tree.
  A path is the list of its segments from the root of the file system.
\<close>

datatype content = Unparsable | Parsed json

datatype node = File content | Dir "(string \<times> node) list"

type_synonym path = "string list"

fun is_dir :: "node \<Rightarrow> bool" where
  "is_dir (Dir es) = True"
| "is_dir (File c) = False"

fun lookup :: "node \<Rightarrow> path \<Rightarrow> node option" where
  "lookup t [] = Some t"
| "lookup (File c) (n # p) = None"
| "lookup (Dir es) (n # p) = (case map_of es n of None \<Rightarrow> None | Some x \<Rightarrow> lookup x p)"

text \<open>What a path leads to, without the listing of a directory.\<close>

datatype kind = Absent | IsFile content | IsDir

definition kind_at :: "node \<Rightarrow> path \<Rightarrow> kind" where
  "kind_at fs p = (case lookup fs p of None \<Rightarrow> Absent | Some (File c) \<Rightarrow> IsFile c
                    | Some (Dir es) \<Rightarrow> IsDir)"

text \<open>The files of a file system, each with its path and its content.\<close>

definition files :: "node \<Rightarrow> (path \<times> content) set" where
  "files fs = {(p, c). kind_at fs p = IsFile c}"

definition existsSync :: "path \<Rightarrow> node \<Rightarrow> bool" where
  "existsSync p fs = (lookup fs p \<noteq> None)"

text \<open>
  A system call that changes the entry at a path: \<open>f\<close> maps what the parent directory holds
  under the last segment (nothing, a file, a directory) to the new entry, to no entry, or to
  an error.  The parent must be a directory; the root of the file system is never replaced.
\<close>

fun alter :: "(node option \<Rightarrow> error + node option) \<Rightarrow> path \<Rightarrow> node \<Rightarrow> error + node" where
  "alter f [] t = Inl (SystemError ''EBUSY'')"
| "alter f (n # p) (File c) = Inl (SystemError ''ENOTDIR'')"
| "alter f [n] (Dir es) =
     (case f (map_of es n) of
        Inl e \<Rightarrow> Inl e
      | Inr None \<Rightarrow> Inr (Dir (AList.delete n es))
      | Inr (Some x) \<Rightarrow> Inr (Dir (AList.update n x es)))"
| "alter f (n # m # p) (Dir es) =
     (case map_of es n of
        None \<Rightarrow> Inl (SystemError ''ENOENT'')
      | Some x \<Rightarrow> (case alter f (m # p) x of
                     Inl e \<Rightarrow> Inl e
                   | Inr x' \<Rightarrow> Inr (Dir (AList.update n x' es))))"

definition writeFileSync :: "path \<Rightarrow> content \<Rightarrow> node \<Rightarrow> error + node" where
  "writeFileSync p c =
     alter (\<lambda>old. case old of Some (Dir es) \<Rightarrow> Inl (SystemError ''EISDIR'')
                             | _ \<Rightarrow> Inr (Some (File c))) p"

definition unlinkSync :: "path \<Rightarrow> node \<Rightarrow> error + node" where
  "unlinkSync =
     alter (\<lambda>old. case old of None \<Rightarrow> Inl (SystemError ''ENOENT'')
                             | Some (Dir es) \<Rightarrow> Inl (SystemError ''EISDIR'')
                             | Some (File c) \<Rightarrow> Inr None)"

definition rmdirSync :: "path \<Rightarrow> node \<Rightarrow> error + node" where
  "rmdirSync =
     alter (\<lambda>old. case old of None \<Rightarrow> Inl (SystemError ''ENOENT'')
                             | Some (File c) \<Rightarrow> Inl (SystemError ''ENOTDIR'')
                             | Some (Dir es) \<Rightarrow> if es = [] then Inr None
                                                else Inl (SystemError ''ENOTEMPTY''))"

text \<open>\<^verbatim>\<open>fs.mkdirSync(p, { recursive: true })\<close>: creates every missing directory of the path.\<close>

fun mkdirSync_recursive :: "path \<Rightarrow> node \<Rightarrow> error + node" where
  "mkdirSync_recursive [] (Dir es) = Inr (Dir es)"
| "mkdirSync_recursive [] (File c) = Inl (SystemError ''EEXIST'')"
| "mkdirSync_recursive (n # p) (File c) = Inl (SystemError ''ENOTDIR'')"
| "mkdirSync_recursive (n # p) (Dir es) =
     (case mkdirSync_recursive p (case map_of es n of None \<Rightarrow> Dir [] | Some x \<Rightarrow> x) of
        Inl e \<Rightarrow> Inl e
      | Inr x' \<Rightarrow> Inr (Dir (AList.update n x' es)))"

definition readFileSync :: "path \<Rightarrow> node \<Rightarrow> error + content" where
  "readFileSync p fs =
     (case lookup fs p of
        None \<Rightarrow> Inl (SystemError ''ENOENT'')
      | Some (Dir es) \<Rightarrow> Inl (SystemError ''EISDIR'')
      | Some (File c) \<Rightarrow> Inr c)"

text \<open>\<^verbatim>\<open>path.join(base, ...segments)\<close>: empty segments are dropped.\<close>

definition path_join :: "path \<Rightarrow> string list \<Rightarrow> path" where
  "path_join base segments = base @ filter (\<lambda>s. s \<noteq> []) segments"


section \<open>The cache\<close>

text \<open>
  An operation takes the root path of the cache (\<^verbatim>\<open>this.cachePath\<close>) and the file system,
  and returns what the call returns or throws, with the file system it leaves behind.
\<close>

definition ensureDir :: "path \<Rightarrow> node \<Rightarrow> error + node" where
  "ensureDir dirPath fs =
     (if \<not> existsSync dirPath fs then mkdirSync_recursive dirPath fs else Inr fs)"

text \<open>The constructor only makes sure that the root directory exists.\<close>

definition constructor :: "path \<Rightarrow> node \<Rightarrow> (error + unit) \<times> node" where
  "constructor cachePath fs =
     (case ensureDir cachePath fs of Inl e \<Rightarrow> (Inl e, fs) | Inr fs' \<Rightarrow> (Inr (), fs'))"

text \<open>\<^verbatim>\<open>_readFile\<close>: whatever fails inside the \<^verbatim>\<open>try\<close> is logged and gives \<^verbatim>\<open>{}\<close>.\<close>

definition readFile :: "path \<Rightarrow> node \<Rightarrow> json" where
  "readFile filePath fs =
     (if existsSync filePath fs then
        (case readFileSync filePath fs of
           Inl e \<Rightarrow> JObj []
         | Inr Unparsable \<Rightarrow> JObj []
         | Inr (Parsed data) \<Rightarrow> data)
      else JObj [])"

definition writeFile :: "path \<Rightarrow> json \<Rightarrow> node \<Rightarrow> error + node" where
  "writeFile filePath data fs = writeFileSync filePath (Parsed data) fs"

text \<open>The record \<^verbatim>\<open>{ key, value, timestamp: Date.now() }\<close>.\<close>

definition record_of :: "string \<Rightarrow> json \<Rightarrow> int \<Rightarrow> json" where
  "record_of key val now = JObj [(''key'', JStr key), (''value'', val), (''timestamp'', JNum now)]"

record FilePathInfo =
  folderPath :: path
  filePath :: path
  md5 :: string

definition getFilePath :: "path \<Rightarrow> string \<Rightarrow> FilePathInfo" where
  "getFilePath cachePath key =
     (let digest = getMd5 key;
          level1 = charAt digest 0;
          level2 = charAt digest 1;
          level3 = charAt digest 2;
          fileName = charAt digest 3 @ ''.json'';
          folder = path_join cachePath [level1, level2, level3];
          file = path_join folder [fileName]
      in \<lparr>folderPath = folder, filePath = file, md5 = digest\<rparr>)"

definition key_error :: error where
  "key_error = TypeError ''Key must be a string''"

text \<open>
  \<^verbatim>\<open>setItem(key, value)\<close>.  The key is any JavaScript value; the value is JSON data (what
  \<^verbatim>\<open>JSON.stringify\<close> can write), and \<open>now\<close> is what \<^verbatim>\<open>Date.now()\<close> returns.
\<close>

definition setItem :: "path \<Rightarrow> jsvalue \<Rightarrow> json \<Rightarrow> int \<Rightarrow> node \<Rightarrow> (error + unit) \<times> node" where
  "setItem cachePath key val now fs =
     (case key of
        J (JStr k) \<Rightarrow>
          (let info = getFilePath cachePath k in
           case ensureDir (folderPath info) fs of
             Inl e \<Rightarrow> (Inl e, fs)
           | Inr fs1 \<Rightarrow>
               (case assign (readFile (filePath info) fs1) (md5 info) (record_of k val now) of
                  Inl e \<Rightarrow> (Inl e, fs1)
                | Inr data \<Rightarrow>
                    (case writeFile (filePath info) data fs1 of
                       Inl e \<Rightarrow> (Inl e, fs1)
                     | Inr fs2 \<Rightarrow> (Inr (), fs2))))
      | _ \<Rightarrow> (Inl key_error, fs))"

definition getItem :: "path \<Rightarrow> jsvalue \<Rightarrow> node \<Rightarrow> (error + jsvalue) \<times> node" where
  "getItem cachePath key fs =
     (case key of
        J (JStr k) \<Rightarrow>
          (let info = getFilePath cachePath k in
           if \<not> existsSync (filePath info) fs then (Inr (J JNull), fs)
           else
             (case member (readFile (filePath info) fs) (md5 info) of
                Inl e \<Rightarrow> (Inl e, fs)
              | Inr Undefined \<Rightarrow> (Inr (J JNull), fs)
              | Inr (J item) \<Rightarrow>
                  if truthy item then (member item ''value'', fs) else (Inr (J JNull), fs)))
      | _ \<Rightarrow> (Inl key_error, fs))"

definition removeItem :: "path \<Rightarrow> jsvalue \<Rightarrow> node \<Rightarrow> (error + unit) \<times> node" where
  "removeItem cachePath key fs =
     (case key of
        J (JStr k) \<Rightarrow>
          (let info = getFilePath cachePath k in
           if \<not> existsSync (filePath info) fs then (Inr (), fs)
           else
             (let data = readFile (filePath info) fs in
              case member data (md5 info) of
                Inl e \<Rightarrow> (Inl e, fs)
              | Inr item \<Rightarrow>
                  if truthy_value item then
                    (let data' = delete_member data (md5 info) in
                     case (if length (objectKeys data') = 0 then unlinkSync (filePath info) fs
                           else writeFile (filePath info) data' fs) of
                       Inl e \<Rightarrow> (Inl e, fs)
                     | Inr fs' \<Rightarrow> (Inr (), fs'))
                  else (Inr (), fs)))
      | _ \<Rightarrow> (Inl key_error, fs))"

text \<open>
  \<^verbatim>\<open>_removeDir(dirPath)\<close>.  The walk follows the node found at \<open>dirPath\<close> when the call
  starts: \<^verbatim>\<open>readdirSync\<close> lists a directory once, and removing one entry leaves the
  entries listed after it as they were.  The first failing system call ends the walk.
\<close>

fun removeDir_walk :: "node \<Rightarrow> path \<Rightarrow> node \<Rightarrow> (error + unit) \<times> node" where
  "removeDir_walk (File c) dirPath fs = (Inl (SystemError ''ENOTDIR''), fs)"
| "removeDir_walk (Dir es) dirPath fs =
     (case fold (\<lambda>(file, x) (r, fs').
                   case r of
                     Inl e \<Rightarrow> (Inl e, fs')
                   | Inr u \<Rightarrow>
                       if is_dir x then removeDir_walk x (dirPath @ [file]) fs'
                       else (case unlinkSync (dirPath @ [file]) fs' of
                               Inl e \<Rightarrow> (Inl e, fs')
                             | Inr fs'' \<Rightarrow> (Inr (), fs'')))
             es (Inr (), fs) of
        (Inl e, fs') \<Rightarrow> (Inl e, fs')
      | (Inr u, fs') \<Rightarrow> (case rmdirSync dirPath fs' of
                          Inl e \<Rightarrow> (Inl e, fs')
                        | Inr fs'' \<Rightarrow> (Inr (), fs'')))"

definition removeDir :: "path \<Rightarrow> node \<Rightarrow> (error + unit) \<times> node" where
  "removeDir dirPath fs =
     (case lookup fs dirPath of None \<Rightarrow> (Inr (), fs) | Some x \<Rightarrow> removeDir_walk x dirPath fs)"

text \<open>\<^verbatim>\<open>clear()\<close>: removes the directories listed under the root, and nothing else.\<close>

definition clear :: "path \<Rightarrow> node \<Rightarrow> (error + unit) \<times> node" where
  "clear cachePath fs =
     (case lookup fs cachePath of
        None \<Rightarrow> (Inr (), fs)
      | Some (File c) \<Rightarrow> (Inl (SystemError ''ENOTDIR''), fs)
      | Some (Dir folders) \<Rightarrow>
          fold (\<lambda>(folder, x) (r, fs').
                  case r of
                    Inl e \<Rightarrow> (Inl e, fs')
                  | Inr u \<Rightarrow> if is_dir x then removeDir (cachePath @ [folder]) fs'
                             else (Inr (), fs'))
            folders (Inr (), fs))"

text \<open>\<^verbatim>\<open>_getAllJsonFiles(dirPath, fileList)\<close>, on the node found at \<open>dirPath\<close>.\<close>

fun jsonFiles_walk :: "node \<Rightarrow> path \<Rightarrow> path list \<Rightarrow> path list" where
  "jsonFiles_walk (File c) dirPath fileList = fileList"
| "jsonFiles_walk (Dir es) dirPath fileList =
     fold (\<lambda>(file, x) fl.
             if is_dir x then jsonFiles_walk x (dirPath @ [file]) fl
             else if endsWith file ''.json'' then fl @ [dirPath @ [file]]
             else fl)
       es fileList"

definition getAllJsonFiles :: "path \<Rightarrow> node \<Rightarrow> error + path list" where
  "getAllJsonFiles dirPath fs =
     (case lookup fs dirPath of
        None \<Rightarrow> Inr []
      | Some (File c) \<Rightarrow> Inl (SystemError ''ENOTDIR'')
      | Some (Dir es) \<Rightarrow> Inr (jsonFiles_walk (Dir es) dirPath []))"

text \<open>The body of the inner loop of \<^verbatim>\<open>keys\<close>: \<^verbatim>\<open>if (item && item.key) allKeys.push(item.key)\<close>.\<close>

definition pushKey :: "json \<Rightarrow> json list \<Rightarrow> json list" where
  "pushKey item allKeys =
     (if truthy item then
        (case member item ''key'' of
           Inr (J k) \<Rightarrow> if truthy k then allKeys @ [k] else allKeys
         | _ \<Rightarrow> allKeys)
      else allKeys)"

definition fileKeys :: "path \<Rightarrow> node \<Rightarrow> json list \<Rightarrow> error + json list" where
  "fileKeys file fs allKeys =
     (case objectValues (readFile file fs) of
        Inl e \<Rightarrow> Inl e
      | Inr items \<Rightarrow> Inr (fold pushKey items allKeys))"

definition keys :: "path \<Rightarrow> node \<Rightarrow> (error + json list) \<times> node" where
  "keys cachePath fs =
     (case getAllJsonFiles cachePath fs of
        Inl e \<Rightarrow> (Inl e, fs)
      | Inr jsonFiles \<Rightarrow>
          (fold (\<lambda>file r. case r of Inl e \<Rightarrow> Inl e
                                  | Inr allKeys \<Rightarrow> fileKeys file fs allKeys)
             jsonFiles (Inr []), fs))"

definition length_property :: "path \<Rightarrow> node \<Rightarrow> (error + nat) \<times> node" where
  "length_property cachePath fs =
     (case keys cachePath fs of
        (Inl e, fs') \<Rightarrow> (Inl e, fs')
      | (Inr allKeys, fs') \<Rightarrow> (Inr (length allKeys), fs'))"


section \<open>States of the store\<close>

text \<open>
  In a file system, the names listed in one directory are distinct.
\<close>

fun wf_node :: "node \<Rightarrow> bool" where
  "wf_node (File c) = True"
| "wf_node (Dir es) = (distinct (map fst es) \<and> (\<forall>e \<in> set es. wf_node (snd e)))"

text \<open>The shape of a tree: its names and what is a directory, without the contents of files.\<close>

fun shape :: "node \<Rightarrow> node" where
  "shape (File c) = File Unparsable"
| "shape (Dir es) = Dir (map (\<lambda>e. (fst e, shape (snd e))) es)"

text \<open>The operations of the public interface, with their arguments.\<close>

datatype operation =
    SetItem jsvalue json int  \<comment> \<open>key, value, and what \<^verbatim>\<open>Date.now()\<close> returns\<close>
  | GetItem jsvalue
  | RemoveItem jsvalue
  | Clear
  | Keys
  | Length

text \<open>The file system an operation leaves behind, whether it returns or throws.\<close>

fun state_after :: "path \<Rightarrow> operation \<Rightarrow> node \<Rightarrow> node" where
  "state_after cachePath (SetItem key val now) fs = snd (setItem cachePath key val now fs)"
| "state_after cachePath (GetItem key) fs = snd (getItem cachePath key fs)"
| "state_after cachePath (RemoveItem key) fs = snd (removeItem cachePath key fs)"
| "state_after cachePath Clear fs = snd (clear cachePath fs)"
| "state_after cachePath Keys fs = snd (keys cachePath fs)"
| "state_after cachePath Length fs = snd (length_property cachePath fs)"

text \<open>
  The states of a store are the file systems the cache itself produces: it starts on an
  empty root directory, and each operation, with any arguments and whatever it returns or
  throws, leads to the next state.
\<close>

inductive store_state :: "path \<Rightarrow> node \<Rightarrow> bool" for cachePath where
  fresh: "lookup fs cachePath = Some (Dir []) \<Longrightarrow> store_state cachePath fs"
| step: "store_state cachePath fs \<Longrightarrow> store_state cachePath (state_after cachePath op fs)"

text \<open>No file of the file system holds the empty document \<^verbatim>\<open>{}\<close>.\<close>

definition no_empty_shard :: "node \<Rightarrow> bool" where
  "no_empty_shard fs = (\<forall>p. (p, Parsed (JObj [])) \<notin> files fs)"

text \<open>
  A well-formed shard: the file at path \<open>p\<close> holds a non-empty object, and each of its
  properties is the record of a key, stored under the digest of that key, in the file that
  \<^verbatim>\<open>_getFilePath\<close> resolves for that key.
\<close>

definition shard_ok :: "path \<Rightarrow> path \<Rightarrow> content \<Rightarrow> bool" where
  "shard_ok cachePath p c =
     (\<exists>doc. c = Parsed (JObj doc) \<and> doc \<noteq> [] \<and> distinct (map fst doc) \<and>
        (\<forall>e \<in> set doc. \<exists>k v t. snd e = record_of k v t \<and> fst e = getMd5 k \<and>
                                 p = filePath (getFilePath cachePath k)))"

text \<open>
  The invariant of the store: the root is a directory, directories lie at most three levels
  below it, and every file below it is a well-formed shard.
\<close>

definition store_inv :: "path \<Rightarrow> node \<Rightarrow> bool" where
  "store_inv cachePath fs =
     ((\<exists>x. lookup fs cachePath = Some x \<and> is_dir x \<and> wf_node x) \<and>
      (\<forall>p. kind_at fs (cachePath @ p) = IsDir \<longrightarrow> length p \<le> 3) \<and>
      (\<forall>p c. kind_at fs (cachePath @ p) = IsFile c \<longrightarrow> shard_ok cachePath (cachePath @ p) c))"

text \<open>
  \<open>removed p fs fs'\<close>: the state \<open>fs'\<close> is \<open>fs\<close> without whatever was at path \<open>p\<close>.
\<close>

definition removed :: "path \<Rightarrow> node \<Rightarrow> node \<Rightarrow> bool" where
  "removed p fs fs' =
     ((\<forall>q. kind_at fs' q = (if prefix p q then Absent else kind_at fs q)) \<and>
      (\<forall>q. \<not> prefix p q \<and> \<not> prefix q p \<longrightarrow> lookup fs' q = lookup fs q))"


section \<open>Properties of the model\<close>

subsection \<open>Shape of a digest\<close>

lemma length_concat_hex_byte: "length (concat (map hex_byte bs)) = 2 * length bs"
  by (induction bs) (simp_all add: hex_byte_def)

lemma length_getMd5: "length (getMd5 key) = 32"
proof -
  obtain a b c d where st: "md5_digest key = (a, b, c, d)"
    by (cases "md5_digest key") auto
  have "length (word_bytes w) = 4" for w
    by (simp add: word_bytes_def)
  then show ?thesis
    by (simp only: getMd5_def st digest_hex.simps length_concat_hex_byte length_append) simp
qed

lemma hex_digit_range: "hex_digit n \<in> set ''0123456789abcdef''"
proof -
  have "n mod 16 < length ''0123456789abcdef''" by simp
  then show ?thesis unfolding hex_digit_def by (rule nth_mem)
qed

lemma set_concat_hex_byte: "set (concat (map hex_byte bs)) \<subseteq> set ''0123456789abcdef''"
proof (induction bs)
  case Nil
  show ?case by simp
next
  case (Cons b bs)
  define H where "H = set ''0123456789abcdef''"
  have "hex_digit (b div 16) \<in> H" "hex_digit b \<in> H"
    unfolding H_def by (rule hex_digit_range)+
  then have "set (hex_byte b) \<subseteq> H"
    by (simp add: hex_byte_def)
  moreover from Cons have "set (concat (map hex_byte bs)) \<subseteq> H"
    by (simp only: H_def)
  ultimately have "set (concat (map hex_byte (b # bs))) \<subseteq> H"
    by simp
  then show ?case by (simp only: H_def)
qed

lemma set_getMd5: "set (getMd5 key) \<subseteq> set ''0123456789abcdef''"
proof -
  obtain a b c d where st: "md5_digest key = (a, b, c, d)"
    by (cases "md5_digest key") auto
  show ?thesis
    unfolding getMd5_def st digest_hex.simps by (rule set_concat_hex_byte)
qed

lemma charAt_getMd5: "i < 32 \<Longrightarrow> charAt (getMd5 key) i = [getMd5 key ! i]"
  by (simp add: charAt_def length_getMd5)

lemma getFilePath_eq:
  "getFilePath cachePath key =
     \<lparr>folderPath = cachePath @ [[getMd5 key ! 0], [getMd5 key ! 1], [getMd5 key ! 2]],
      filePath = cachePath @ [[getMd5 key ! 0], [getMd5 key ! 1], [getMd5 key ! 2],
                              getMd5 key ! 3 # ''.json''],
      md5 = getMd5 key\<rparr>"
  by (simp add: getFilePath_def Let_def path_join_def charAt_getMd5)

subsection \<open>Looking up paths\<close>

lemma lookup_append: "lookup t (p @ q) = (case lookup t p of None \<Rightarrow> None | Some x \<Rightarrow> lookup x q)"
  by (induction t p rule: lookup.induct) (simp_all split: option.splits)

lemma lookup_File: "lookup (File c) p = (if p = [] then Some (File c) else None)"
  by (cases p) simp_all

lemma kind_at_Nil: "kind_at t [] = (case t of File c \<Rightarrow> IsFile c | Dir es \<Rightarrow> IsDir)"
  by (simp add: kind_at_def)

lemma kind_at_Cons_Dir:
  "kind_at (Dir es) (n # q) = (case map_of es n of None \<Rightarrow> Absent | Some x \<Rightarrow> kind_at x q)"
  by (simp add: kind_at_def split: option.splits)

lemma kind_at_Cons_File: "kind_at (File c) (n # q) = Absent"
  by (simp add: kind_at_def)

lemma kind_at_append:
  "kind_at t (p @ q) = (case lookup t p of None \<Rightarrow> Absent | Some x \<Rightarrow> kind_at x q)"
  by (simp add: kind_at_def lookup_append split: option.splits)

lemma kind_at_below_absent: "kind_at t p = Absent \<Longrightarrow> kind_at t (p @ q) = Absent"
  by (simp add: kind_at_def lookup_append split: option.splits node.splits)

lemma kind_at_below_file: "kind_at t p = IsFile c \<Longrightarrow> q \<noteq> [] \<Longrightarrow> kind_at t (p @ q) = Absent"
  by (auto simp: kind_at_def lookup_append lookup_File split: option.splits node.splits)

lemma kind_at_above: "kind_at t (p @ q) \<noteq> Absent \<Longrightarrow> q \<noteq> [] \<Longrightarrow> kind_at t p = IsDir"
  by (auto simp: kind_at_def lookup_append lookup_File split: option.splits node.splits if_splits)

lemma existsSync_kind: "existsSync p fs \<longleftrightarrow> kind_at fs p \<noteq> Absent"
  by (simp add: existsSync_def kind_at_def split: option.splits node.splits)

lemma readFile_kind:
  "readFile p fs = (case kind_at fs p of IsFile (Parsed data) \<Rightarrow> data | _ \<Rightarrow> JObj [])"
  by (simp add: readFile_def readFileSync_def existsSync_def kind_at_def
      split: option.splits node.splits content.splits)

lemma dir_empty_iff:
  "lookup t p = Some (Dir es) \<Longrightarrow> es = [] \<longleftrightarrow> (\<forall>n. kind_at t (p @ [n]) = Absent)"
proof
  assume "lookup t p = Some (Dir es)" "es = []"
  then show "\<forall>n. kind_at t (p @ [n]) = Absent"
    by (simp add: kind_at_append kind_at_Cons_Dir)
next
  assume t: "lookup t p = Some (Dir es)" and a: "\<forall>n. kind_at t (p @ [n]) = Absent"
  show "es = []"
  proof (cases es)
    case Nil
    then show ?thesis .
  next
    case (Cons e es')
    obtain n x where e: "e = (n, x)" by (cases e)
    from a have "kind_at t (p @ [n]) = Absent" by blast
    with t Cons e show ?thesis
      by (cases x) (simp_all add: kind_at_append kind_at_Cons_Dir kind_at_Nil)
  qed
qed

subsection \<open>What a system call changes\<close>

lemma alter_is_dir: "alter f p t = Inr t' \<Longrightarrow> is_dir t'"
  by (induction f p t rule: alter.induct) (auto split: sum.splits option.splits)

lemma alter_kind:
  "alter f p t = Inr t' \<Longrightarrow>
   kind_at t' q =
     (if prefix p q then
        (case f (lookup t p) of Inr (Some x) \<Rightarrow> kind_at x (drop (length p) q) | _ \<Rightarrow> Absent)
      else kind_at t q)"
proof (induction f p t arbitrary: t' q rule: alter.induct)
  case (1 f t)
  then show ?case by simp
next
  case (2 f n p c)
  then show ?case by simp
next
  case (3 f n es)
  show ?case
  proof (cases q)
    case Nil
    with 3 show ?thesis
      by (auto simp: kind_at_Nil split: sum.splits option.splits)
  next
    case (Cons m r)
    with 3 show ?thesis
      by (auto simp: kind_at_Cons_Dir update_conv' delete_conv' kind_at_Nil
          split: sum.splits option.splits)
  qed
next
  case (4 f n m p es)
  from "4.prems" obtain x x' where x: "map_of es n = Some x"
    and x': "alter f (m # p) x = Inr x'" and t': "t' = Dir (AList.update n x' es)"
    by (auto split: sum.splits option.splits)
  show ?case
  proof (cases q)
    case Nil
    with t' show ?thesis by (simp add: kind_at_Nil)
  next
    case (Cons k r)
    show ?thesis
    proof (cases "k = n")
      case True
      with Cons t' x "4.IH" [OF x x', of r] show ?thesis
        by (simp add: kind_at_Cons_Dir update_conv' split: sum.splits option.splits)
    next
      case False
      with Cons t' show ?thesis
        by (simp add: kind_at_Cons_Dir update_conv')
    qed
  qed
qed

lemma alter_lookup_other:
  "alter f p t = Inr t' \<Longrightarrow> \<not> prefix p q \<Longrightarrow> \<not> prefix q p \<Longrightarrow> lookup t' q = lookup t q"
proof (induction f p t arbitrary: t' q rule: alter.induct)
  case (1 f t)
  then show ?case by simp
next
  case (2 f n p c)
  then show ?case by simp
next
  case (3 f n es)
  then show ?case
    by (cases q) (auto simp: update_conv' delete_conv' split: sum.splits option.splits)
next
  case (4 f n m p es)
  from "4.prems" obtain x x' where x: "map_of es n = Some x"
    and x': "alter f (m # p) x = Inr x'" and t': "t' = Dir (AList.update n x' es)"
    by (auto split: sum.splits option.splits)
  from "4.prems" obtain k r where q: "q = k # r" by (cases q) auto
  show ?case
  proof (cases "k = n")
    case True
    with q "4.prems" have "\<not> prefix (m # p) r" "\<not> prefix r (m # p)" by simp_all
    with "4.IH" [OF x x'] have "lookup x' r = lookup x r" by simp
    with True q t' x show ?thesis by (simp add: update_conv')
  next
    case False
    with q t' show ?thesis by (simp add: update_conv')
  qed
qed

lemma alter_lookup_prefix:
  "alter f (p @ r) t = Inr t' \<Longrightarrow> r \<noteq> [] \<Longrightarrow>
   \<exists>x x'. lookup t p = Some x \<and> alter f r x = Inr x' \<and> lookup t' p = Some x'"
proof (induction p arbitrary: t t')
  case Nil
  then show ?case by simp
next
  case (Cons n p)
  from Cons.prems obtain m r' where pr: "p @ r = m # r'" by (cases "p @ r") auto
  from Cons.prems pr obtain es where t: "t = Dir es" by (cases t) auto
  from Cons.prems pr t obtain x x' where x: "map_of es n = Some x"
    and x': "alter f (p @ r) x = Inr x'" and t': "t' = Dir (AList.update n x' es)"
    by (auto split: sum.splits option.splits)
  from Cons.IH [OF x' Cons.prems(2)] t t' x show ?case
    by (auto simp: update_conv')
qed

lemma alter_succeeds:
  "lookup t parent = Some (Dir es) \<Longrightarrow> f (map_of es n) = Inr r \<Longrightarrow>
   \<exists>t'. alter f (parent @ [n]) t = Inr t'"
proof (induction parent arbitrary: t)
  case Nil
  then show ?case by (cases r) auto
next
  case (Cons m parent)
  from Cons.prems obtain es' x where t: "t = Dir es'" and x: "map_of es' m = Some x"
    and l: "lookup x parent = Some (Dir es)"
    by (cases t) (auto split: option.splits)
  from Cons.IH [OF l Cons.prems(2)] obtain x' where "alter f (parent @ [n]) x = Inr x'" by blast
  with t x show ?case by (cases "parent @ [n]") auto
qed

lemma alter_result: "alter f p t = Inr t' \<Longrightarrow> \<exists>r. f (lookup t p) = Inr r"
  by (induction f p t arbitrary: t' rule: alter.induct) (auto split: sum.splits option.splits)

lemma lookup_snoc_Dir: "lookup t p = Some (Dir es) \<Longrightarrow> lookup t (p @ [n]) = map_of es n"
  by (simp add: lookup_append split: option.splits)

lemma writeFileSync_kind:
  assumes "writeFileSync p c t = Inr t'"
  shows "kind_at t' q = (if q = p then IsFile c else kind_at t q)"
proof (cases "prefix p q")
  case False
  with alter_kind [OF assms [unfolded writeFileSync_def], of q] show ?thesis by auto
next
  case True
  then obtain r where q: "q = p @ r" by (auto simp: prefix_def)
  from alter_result [OF assms [unfolded writeFileSync_def]] have nd: "kind_at t p \<noteq> IsDir"
    by (auto simp: kind_at_def split: option.splits node.splits)
  have "r \<noteq> [] \<Longrightarrow> kind_at t (p @ r) = Absent"
    using nd kind_at_above [of t p r] by auto
  with alter_kind [OF assms [unfolded writeFileSync_def], of q] q nd show ?thesis
    by (cases r) (auto simp: kind_at_def split: option.splits node.splits)
qed

lemma unlinkSync_kind:
  assumes "unlinkSync p t = Inr t'"
  shows "kind_at t' q = (if q = p then Absent else kind_at t q)"
    and "\<exists>c. kind_at t p = IsFile c"
proof -
  from alter_result [OF assms [unfolded unlinkSync_def]]
  show f: "\<exists>c. kind_at t p = IsFile c"
    by (auto simp: kind_at_def split: option.splits node.splits)
  show "kind_at t' q = (if q = p then Absent else kind_at t q)"
  proof (cases "prefix p q")
    case False
    with alter_kind [OF assms [unfolded unlinkSync_def], of q] show ?thesis by auto
  next
    case True
    then obtain r where q: "q = p @ r" by (auto simp: prefix_def)
    from f kind_at_below_file [of t p _ r] have "r \<noteq> [] \<Longrightarrow> kind_at t (p @ r) = Absent"
      by auto
    with alter_kind [OF assms [unfolded unlinkSync_def], of q] q f show ?thesis
      by (cases r) (auto simp: kind_at_def split: option.splits node.splits)
  qed
qed

lemma rmdirSync_kind:
  assumes "rmdirSync p t = Inr t'"
  shows "kind_at t' q = (if q = p then Absent else kind_at t q)"
proof -
  from alter_result [OF assms [unfolded rmdirSync_def]]
  have e: "lookup t p = Some (Dir [])"
    by (auto split: option.splits node.splits if_splits)
  show ?thesis
  proof (cases "prefix p q")
    case False
    with alter_kind [OF assms [unfolded rmdirSync_def], of q] show ?thesis by auto
  next
    case True
    then obtain r where q: "q = p @ r" by (auto simp: prefix_def)
    from e have "r \<noteq> [] \<Longrightarrow> kind_at t (p @ r) = Absent"
      by (cases r) (simp_all add: kind_at_append kind_at_Cons_Dir)
    with alter_kind [OF assms [unfolded rmdirSync_def], of q] q e show ?thesis
      by (cases r) (auto simp: kind_at_def split: option.splits node.splits)
  qed
qed

lemma writeFileSync_succeeds:
  assumes "kind_at t parent = IsDir" and "kind_at t (parent @ [n]) \<noteq> IsDir"
  shows "\<exists>t'. writeFileSync (parent @ [n]) c t = Inr t'"
proof -
  from assms(1) obtain es where es: "lookup t parent = Some (Dir es)"
    by (auto simp: kind_at_def split: option.splits node.splits)
  from assms(2) es have "\<forall>es'. map_of es n \<noteq> Some (Dir es')"
    by (auto simp: kind_at_def lookup_snoc_Dir)
  then have "(case map_of es n of Some (Dir es') \<Rightarrow> Inl (SystemError ''EISDIR'')
              | _ \<Rightarrow> Inr (Some (File c))) = Inr (Some (File c))"
    by (auto split: option.splits node.splits)
  with alter_succeeds [OF es] show ?thesis
    unfolding writeFileSync_def by blast
qed

lemma unlinkSync_succeeds:
  assumes "kind_at t (parent @ [n]) = IsFile c"
  shows "\<exists>t'. unlinkSync (parent @ [n]) t = Inr t'"
proof -
  from assms have "kind_at t parent = IsDir"
    using kind_at_above [of t parent "[n]"] by simp
  then obtain es where es: "lookup t parent = Some (Dir es)"
    by (auto simp: kind_at_def split: option.splits node.splits)
  from assms es have "map_of es n = Some (File c)"
    by (auto simp: kind_at_def lookup_snoc_Dir split: option.splits node.splits)
  then have "(case map_of es n of None \<Rightarrow> Inl (SystemError ''ENOENT'')
              | Some (Dir es) \<Rightarrow> Inl (SystemError ''EISDIR'')
              | Some (File c) \<Rightarrow> Inr None) = Inr None"
    by simp
  with alter_succeeds [OF es] show ?thesis
    unfolding unlinkSync_def by blast
qed

lemma rmdirSync_succeeds:
  assumes "lookup t (parent @ [n]) = Some (Dir [])"
  shows "\<exists>t'. rmdirSync (parent @ [n]) t = Inr t'"
proof -
  from assms have "kind_at t (parent @ [n]) = IsDir" by (simp add: kind_at_def)
  then have "kind_at t parent = IsDir"
    using kind_at_above [of t parent "[n]"] by simp
  then obtain es where es: "lookup t parent = Some (Dir es)"
    by (auto simp: kind_at_def split: option.splits node.splits)
  from assms es have "map_of es n = Some (Dir [])"
    by (simp add: lookup_snoc_Dir)
  then have "(case map_of es n of None \<Rightarrow> Inl (SystemError ''ENOENT'')
              | Some (File c) \<Rightarrow> Inl (SystemError ''ENOTDIR'')
              | Some (Dir es) \<Rightarrow> if es = [] then Inr None
                                 else Inl (SystemError ''ENOTEMPTY'')) = Inr None"
    by simp
  with alter_succeeds [OF es] show ?thesis
    unfolding rmdirSync_def by blast
qed

subsection \<open>Creating directories\<close>

lemma mkdir_is_dir: "mkdirSync_recursive p t = Inr t' \<Longrightarrow> is_dir t'"
  by (induction p t rule: mkdirSync_recursive.induct) (auto split: sum.splits)

lemma mkdir_kind:
  "mkdirSync_recursive p t = Inr t' \<Longrightarrow>
   kind_at t' q = (if prefix q p \<and> kind_at t q = Absent then IsDir else kind_at t q)"
proof (induction p t arbitrary: t' q rule: mkdirSync_recursive.induct)
  case (1 es)
  then show ?case by (auto simp: kind_at_Nil)
next
  case (2 c)
  then show ?case by simp
next
  case (3 n p c)
  then show ?case by simp
next
  case (4 n p es)
  define x where "x = (case map_of es n of None \<Rightarrow> Dir [] | Some x \<Rightarrow> x)"
  from "4.prems" obtain x' where x': "mkdirSync_recursive p x = Inr x'"
    and t': "t' = Dir (AList.update n x' es)"
    by (auto simp: x_def split: sum.splits)
  note IH = "4.IH" [OF x' [unfolded x_def]]
  show ?case
  proof (cases q)
    case Nil
    with t' show ?thesis by (simp add: kind_at_Nil)
  next
    case (Cons k r)
    show ?thesis
    proof (cases "k = n")
      case False
      with Cons t' show ?thesis by (simp add: kind_at_Cons_Dir update_conv')
    next
      case True
      show ?thesis
      proof (cases "r = []")
        case True
        from x' have "is_dir x" by (cases x; cases p) auto
        then have "kind_at (Dir es) [n] = Absent \<or> kind_at (Dir es) [n] = IsDir"
          by (cases x) (auto simp: x_def kind_at_Cons_Dir kind_at_Nil split: option.splits)
        moreover have "kind_at x' [] = IsDir"
          using mkdir_is_dir [OF x'] by (cases x') (simp_all add: kind_at_Nil)
        ultimately show ?thesis
          using Cons \<open>k = n\<close> True t' by (auto simp: kind_at_Cons_Dir update_conv')
      next
        case False
        then have "kind_at x r = kind_at (Dir es) (n # r)"
          by (cases r) (auto simp: x_def kind_at_Cons_Dir kind_at_Nil split: option.splits)
        with IH [of r] Cons True t' show ?thesis
          by (auto simp: kind_at_Cons_Dir update_conv' x_def)
      qed
    qed
  qed
qed

lemma mkdir_succeeds:
  "(\<And>q c. prefix q p \<Longrightarrow> kind_at t q \<noteq> IsFile c) \<Longrightarrow> \<exists>t'. mkdirSync_recursive p t = Inr t'"
proof (induction p t rule: mkdirSync_recursive.induct)
  case (1 es)
  show ?case by simp
next
  case (2 c)
  from "2" [of "[]" c] show ?case by (simp add: kind_at_Nil)
next
  case (3 n p c)
  from "3" [of "[]" c] show ?case by (simp add: kind_at_Nil)
next
  case (4 n p es)
  have "\<exists>t'. mkdirSync_recursive p (case map_of es n of None \<Rightarrow> Dir [] | Some x \<Rightarrow> x) = Inr t'"
  proof (rule "4.IH")
    fix q c assume q: "prefix q p"
    from "4.prems" [of "n # q" c] q
    show "kind_at (case map_of es n of None \<Rightarrow> Dir [] | Some x \<Rightarrow> x) q \<noteq> IsFile c"
      by (cases q) (auto simp: kind_at_Cons_Dir kind_at_Nil split: option.splits)
  qed
  then show ?case by auto
qed

lemma mkdir_lookup_other:
  "mkdirSync_recursive p t = Inr t' \<Longrightarrow> \<not> prefix q p \<Longrightarrow> lookup t' q = lookup t q"
proof (induction p t arbitrary: t' q rule: mkdirSync_recursive.induct)
  case (4 n p es)
  define x where "x = (case map_of es n of None \<Rightarrow> Dir [] | Some x \<Rightarrow> x)"
  from "4.prems" obtain x' where x': "mkdirSync_recursive p x = Inr x'"
    and t': "t' = Dir (AList.update n x' es)"
    by (auto simp: x_def split: sum.splits)
  from "4.prems" obtain k r where q: "q = k # r" by (cases q) auto
  show ?case
  proof (cases "k = n")
    case False
    with q t' show ?thesis by (simp add: update_conv')
  next
    case True
    with q "4.prems" have np: "\<not> prefix r p" by simp
    then have "r \<noteq> []" by auto
    then have "lookup x r = lookup (Dir es) (n # r)"
      by (cases r) (auto simp: x_def split: option.splits)
    with "4.IH" [OF x' [unfolded x_def] np] q True t' show ?thesis
      by (simp add: update_conv' x_def)
  qed
qed auto

subsection \<open>Well-formed trees\<close>

lemma node_induct [case_names File Dir]:
  "(\<And>c. P (File c)) \<Longrightarrow> (\<And>es. (\<And>name sub. (name, sub) \<in> set es \<Longrightarrow> P sub) \<Longrightarrow> P (Dir es)) \<Longrightarrow> P t"
  by (induction t) auto

lemma set_update_subset: "set (AList.update k v al) \<subseteq> insert (k, v) (set al)"
  by (induction al) auto

lemma set_delete_subset: "set (AList.delete k al) \<subseteq> set al"
  by (induction al) auto

lemma wf_node_update: "wf_node (Dir es) \<Longrightarrow> wf_node x \<Longrightarrow> wf_node (Dir (AList.update n x es))"
  using set_update_subset [of n x es] by (auto simp: distinct_update)

lemma wf_node_delete: "wf_node (Dir es) \<Longrightarrow> wf_node (Dir (AList.delete n es))"
  using set_delete_subset [of n es] by (auto simp: distinct_delete)

lemma wf_node_child: "wf_node (Dir es) \<Longrightarrow> map_of es n = Some x \<Longrightarrow> wf_node x"
  by (auto dest: map_of_SomeD)

lemma wf_node_lookup: "wf_node t \<Longrightarrow> lookup t p = Some x \<Longrightarrow> wf_node x"
proof (induction t p rule: lookup.induct)
  case (3 es n p)
  then show ?case
    by (auto split: option.splits dest: map_of_SomeD)
qed simp_all

lemma wf_alter:
  "alter f p t = Inr t' \<Longrightarrow> wf_node t \<Longrightarrow> (\<And>old x. f old = Inr (Some x) \<Longrightarrow> wf_node x) \<Longrightarrow>
   wf_node t'"
proof (induction f p t arbitrary: t' rule: alter.induct)
  case (3 f n es)
  then show ?case
    by (auto split: sum.splits option.splits simp del: wf_node.simps
        intro: wf_node_update wf_node_delete)
next
  case (4 f n m p es)
  from "4.prems" obtain x x' where x: "map_of es n = Some x"
    and x': "alter f (m # p) x = Inr x'" and t': "t' = Dir (AList.update n x' es)"
    by (auto split: sum.splits option.splits)
  from "4.prems" x have "wf_node x" by (blast intro: wf_node_child)
  with "4.IH" [OF x x'] "4.prems" have "wf_node x'" by blast
  with t' "4.prems" show ?case by (simp only: wf_node_update)
qed simp_all

lemma wf_mkdir: "mkdirSync_recursive p t = Inr t' \<Longrightarrow> wf_node t \<Longrightarrow> wf_node t'"
proof (induction p t arbitrary: t' rule: mkdirSync_recursive.induct)
  case (4 n p es)
  define x where "x = (case map_of es n of None \<Rightarrow> Dir [] | Some x \<Rightarrow> x)"
  from "4.prems" obtain x' where x': "mkdirSync_recursive p x = Inr x'"
    and t': "t' = Dir (AList.update n x' es)"
    by (auto simp: x_def split: sum.splits)
  from "4.prems" have "wf_node x"
    by (auto simp: x_def split: option.splits dest: map_of_SomeD)
  with "4.IH" [OF x' [unfolded x_def]] have "wf_node x'" by (simp add: x_def)
  with t' "4.prems" show ?case by (simp only: wf_node_update)
qed auto

lemma mkdir_lookup_prefix:
  "mkdirSync_recursive (p @ r) t = Inr t' \<Longrightarrow> lookup t p = Some x \<Longrightarrow>
   \<exists>x'. mkdirSync_recursive r x = Inr x' \<and> lookup t' p = Some x'"
proof (induction p arbitrary: t t')
  case Nil
  then show ?case by simp
next
  case (Cons n p)
  from Cons.prems obtain es y where t: "t = Dir es" and y: "map_of es n = Some y"
    and l: "lookup y p = Some x"
    by (cases t) (auto split: option.splits)
  from Cons.prems t y obtain y' where y': "mkdirSync_recursive (p @ r) y = Inr y'"
    and t': "t' = Dir (AList.update n y' es)"
    by (auto split: sum.splits)
  from Cons.IH [OF y' l] t' show ?case by (auto simp: update_conv')
qed

subsection \<open>Removing a directory tree\<close>

lemma removed_frame_below:
  "removed (dp @ [m]) fs fs' \<Longrightarrow> m' \<noteq> m \<Longrightarrow> lookup fs' (dp @ [m']) = lookup fs (dp @ [m'])"
  by (simp add: removed_def)

lemma unlinkSync_removed:
  assumes "unlinkSync p t = Inr t'"
  shows "removed p t t'"
proof -
  from unlinkSync_kind(2) [OF assms] obtain c where c: "kind_at t p = IsFile c" by blast
  have "kind_at t' q = (if prefix p q then Absent else kind_at t q)" for q
  proof (cases "prefix p q")
    case True
    then obtain r where "q = p @ r" by (auto simp: prefix_def)
    with c kind_at_below_file [OF c, of r] unlinkSync_kind(1) [OF assms, of q] show ?thesis
      by (cases "r = []") auto
  next
    case False
    with unlinkSync_kind(1) [OF assms, of q] show ?thesis by auto
  qed
  with alter_lookup_other [OF assms [unfolded unlinkSync_def]] show ?thesis
    by (simp add: removed_def)
qed

lemma fold_removes:
  assumes "distinct (map fst es)"
    and "\<And>m y. (m, y) \<in> set es \<Longrightarrow> lookup fs (dp @ [m]) = Some y"
    and step: "\<And>m y fs1. (m, y) \<in> set es \<Longrightarrow> lookup fs1 (dp @ [m]) = Some y \<Longrightarrow>
             \<exists>fs2. step (m, y) (Inr (), fs1) = (Inr (), fs2) \<and> removed (dp @ [m]) fs1 fs2"
  shows "\<exists>fs'. fold step es (Inr (), fs) = (Inr (), fs') \<and>
           (\<forall>q. kind_at fs' q =
                  (if \<exists>m \<in> fst ` set es. prefix (dp @ [m]) q then Absent else kind_at fs q)) \<and>
           (\<forall>q. \<not> prefix dp q \<and> \<not> prefix q dp \<longrightarrow> lookup fs' q = lookup fs q)"
  using assms
proof (induction es arbitrary: fs)
  case Nil
  show ?case by simp
next
  case (Cons e es)
  obtain m y where e: "e = (m, y)" by (cases e)
  from Cons.prems(2) [of m y] e have l: "lookup fs (dp @ [m]) = Some y" by simp
  from Cons.prems(3) [of m y fs] e l obtain fs2
    where s: "step (m, y) (Inr (), fs) = (Inr (), fs2)" and r: "removed (dp @ [m]) fs fs2"
    by auto
  have d: "distinct (map fst es)" using Cons.prems(1) by simp
  have l2: "lookup fs2 (dp @ [m']) = Some y'" if "(m', y') \<in> set es" for m' y'
  proof -
    from that Cons.prems(1) e have "m' \<noteq> m" by (auto simp: image_iff)
    with removed_frame_below [OF r] Cons.prems(2) [of m' y'] that show ?thesis by simp
  qed
  have st: "\<exists>fs2. step (m', y') (Inr (), fs1) = (Inr (), fs2) \<and> removed (dp @ [m']) fs1 fs2"
    if "(m', y') \<in> set es" "lookup fs1 (dp @ [m']) = Some y'" for m' y' fs1
    using Cons.prems(3) [of m' y' fs1] that by simp
  from Cons.IH [OF d l2 st] obtain fs' where
    f: "fold step es (Inr (), fs2) = (Inr (), fs')"
    and k: "\<And>q. kind_at fs' q =
              (if \<exists>m \<in> fst ` set es. prefix (dp @ [m]) q then Absent else kind_at fs2 q)"
    and o: "\<And>q. \<not> prefix dp q \<and> \<not> prefix q dp \<Longrightarrow> lookup fs' q = lookup fs2 q"
    by blast
  have "fold step (e # es) (Inr (), fs) = (Inr (), fs')"
    using s f e by simp
  moreover have "kind_at fs' q =
      (if \<exists>m \<in> fst ` set (e # es). prefix (dp @ [m]) q then Absent else kind_at fs q)" for q
    using k [of q] r e by (auto simp: removed_def)
  moreover have "lookup fs' q = lookup fs q" if "\<not> prefix dp q \<and> \<not> prefix q dp" for q
  proof -
    from that have "\<not> prefix (dp @ [m]) q \<and> \<not> prefix q (dp @ [m])"
      by (auto simp: prefix_def append_eq_append_conv2 Cons_eq_append_conv)
    with r o [OF that] show ?thesis by (simp add: removed_def)
  qed
  ultimately show ?case by blast
qed

lemma lookup_child:
  "lookup fs dp = Some (Dir es) \<Longrightarrow> distinct (map fst es) \<Longrightarrow> (m, y) \<in> set es \<Longrightarrow>
   lookup fs (dp @ [m]) = Some y"
  by (simp add: lookup_snoc_Dir)

lemma kind_at_no_child:
  "lookup fs dp = Some (Dir es) \<Longrightarrow> m \<notin> fst ` set es \<Longrightarrow> kind_at fs (dp @ m # r) = Absent"
proof -
  assume "lookup fs dp = Some (Dir es)" "m \<notin> fst ` set es"
  moreover from this have "map_of es m = None" by (simp add: map_of_eq_None_iff)
  ultimately show ?thesis by (simp add: kind_at_append kind_at_Cons_Dir)
qed

lemma emptied_dir:
  assumes dir: "lookup fs dp = Some (Dir es)"
    and k: "\<And>q. kind_at fs' q =
              (if \<exists>m \<in> fst ` set es. prefix (dp @ [m]) q then Absent else kind_at fs q)"
  shows "lookup fs' dp = Some (Dir [])"
proof -
  have "kind_at fs' dp = kind_at fs dp"
    using k [of dp] by (auto simp: prefix_def)
  with dir obtain es' where es': "lookup fs' dp = Some (Dir es')"
    by (auto simp: kind_at_def split: option.splits node.splits)
  have "kind_at fs' (dp @ [m]) = Absent" for m
    using k [of "dp @ [m]"] kind_at_no_child [OF dir, of m "[]"] by auto
  with dir_empty_iff [OF es'] es' show ?thesis by simp
qed

lemma removeDir_walk_ok:
  "wf_node x \<Longrightarrow> is_dir x \<Longrightarrow> lookup fs (parent @ [n]) = Some x \<Longrightarrow>
   \<exists>fs'. removeDir_walk x (parent @ [n]) fs = (Inr (), fs') \<and> removed (parent @ [n]) fs fs'"
proof (induction x arbitrary: parent n fs rule: node_induct)
  case (File c)
  then show ?case by simp
next
  case (Dir es)
  let ?dp = "parent @ [n]"
  define step where "step = (\<lambda>(file, x) (r :: error + unit, fs').
      case r of
        Inl e \<Rightarrow> (Inl e, fs')
      | Inr u \<Rightarrow>
          if is_dir x then removeDir_walk x (?dp @ [file]) fs'
          else (case unlinkSync (?dp @ [file]) fs' of
                  Inl e \<Rightarrow> (Inl e, fs')
                | Inr fs'' \<Rightarrow> (Inr (), fs'')))"
  have dist: "distinct (map fst es)" using Dir.prems(1) by simp
  have dir: "lookup fs ?dp = Some (Dir es)" by (rule Dir.prems(3))
  have look: "lookup fs (?dp @ [m]) = Some y" if "(m, y) \<in> set es" for m y
    using lookup_child [OF dir dist that] .
  have st: "\<exists>fs2. step (m, y) (Inr (), fs1) = (Inr (), fs2) \<and> removed (?dp @ [m]) fs1 fs2"
    if in_es: "(m, y) \<in> set es" and l: "lookup fs1 (?dp @ [m]) = Some y" for m y fs1
  proof (cases y)
    case (File c)
    with l have "kind_at fs1 (?dp @ [m]) = IsFile c" by (simp add: kind_at_def)
    from unlinkSync_succeeds [OF this] obtain fs2
      where u: "unlinkSync (?dp @ [m]) fs1 = Inr fs2" by blast
    with unlinkSync_removed [OF u] File show ?thesis by (simp add: step_def)
  next
    case (Dir es')
    from Dir.prems(1) in_es have "wf_node y" by auto
    with Dir.IH [OF in_es, where parent = "?dp" and n = m and fs = fs1] l Dir show ?thesis
      by (simp add: step_def)
  qed
  from fold_removes [of es fs ?dp step, OF dist look st] obtain fs'
    where f: "fold step es (Inr (), fs) = (Inr (), fs')"
    and k: "\<And>q. kind_at fs' q =
              (if \<exists>m \<in> fst ` set es. prefix (?dp @ [m]) q then Absent else kind_at fs q)"
    and o: "\<And>q. \<not> prefix ?dp q \<and> \<not> prefix q ?dp \<Longrightarrow> lookup fs' q = lookup fs q"
    by blast
  from emptied_dir [OF dir k] have e: "lookup fs' ?dp = Some (Dir [])" .
  from rmdirSync_succeeds [OF e] obtain fs'' where r: "rmdirSync ?dp fs' = Inr fs''" by blast
  have w: "removeDir_walk (Dir es) ?dp fs = (Inr (), fs'')"
    using f r by (simp add: step_def)
  have "kind_at fs'' q = (if prefix ?dp q then Absent else kind_at fs q)" for q
  proof (cases "prefix ?dp q")
    case False
    with rmdirSync_kind [OF r, of q] k [of q] show ?thesis
      by (auto simp: prefix_def)
  next
    case True
    then obtain t where q: "q = ?dp @ t" by (auto simp: prefix_def)
    show ?thesis
    proof (cases t)
      case Nil
      with q rmdirSync_kind [OF r, of q] show ?thesis by simp
    next
      case (Cons m t')
      have "kind_at fs' (?dp @ m # t') = Absent"
        using k [of "?dp @ m # t'"] kind_at_no_child [OF dir, of m t'] by auto
      with q Cons rmdirSync_kind [OF r, of q] show ?thesis by simp
    qed
  qed
  moreover have "lookup fs'' q = lookup fs q" if "\<not> prefix ?dp q \<and> \<not> prefix q ?dp" for q
    using alter_lookup_other [OF r [unfolded rmdirSync_def], of q] o [OF that] that by simp
  ultimately have "removed ?dp fs fs''" by (simp add: removed_def)
  with w show ?case by blast
qed

lemma clear_absent: "lookup fs cachePath = None \<Longrightarrow> clear cachePath fs = (Inr (), fs)"
  by (simp add: clear_def)

lemma clear_empty: "lookup fs cachePath = Some (Dir []) \<Longrightarrow> clear cachePath fs = (Inr (), fs)"
  by (simp add: clear_def)

lemma clear_ok:
  assumes dir: "lookup fs cachePath = Some (Dir folders)"
    and wf: "wf_node (Dir folders)"
    and all_dirs: "\<forall>e \<in> set folders. is_dir (snd e)"
  shows "\<exists>fs'. clear cachePath fs = (Inr (), fs') \<and> lookup fs' cachePath = Some (Dir []) \<and>
           (\<forall>q. kind_at fs' q = (if strict_prefix cachePath q then Absent else kind_at fs q)) \<and>
           (\<forall>q. \<not> prefix cachePath q \<and> \<not> prefix q cachePath \<longrightarrow> lookup fs' q = lookup fs q)"
proof -
  define step where "step = (\<lambda>(folder, x) (r :: error + unit, fs').
      case r of
        Inl e \<Rightarrow> (Inl e, fs')
      | Inr u \<Rightarrow> if is_dir x then removeDir (cachePath @ [folder]) fs' else (Inr (), fs'))"
  have dirs: "is_dir y" if "(m, y) \<in> set folders" for m y
    using all_dirs that by auto
  have dist: "distinct (map fst folders)" using wf by simp
  have look: "lookup fs (cachePath @ [m]) = Some y" if "(m, y) \<in> set folders" for m y
    using lookup_child [OF dir dist that] .
  have st: "\<exists>fs2. step (m, y) (Inr (), fs1) = (Inr (), fs2) \<and> removed (cachePath @ [m]) fs1 fs2"
    if in_es: "(m, y) \<in> set folders" and l: "lookup fs1 (cachePath @ [m]) = Some y" for m y fs1
  proof -
    from wf in_es have "wf_node y" by auto
    from removeDir_walk_ok [OF this dirs [OF in_es] l] dirs [OF in_es] l show ?thesis
      by (simp add: step_def removeDir_def)
  qed
  from fold_removes [of folders fs cachePath step, OF dist look st] obtain fs'
    where f: "fold step folders (Inr (), fs) = (Inr (), fs')"
    and k: "\<And>q. kind_at fs' q =
              (if \<exists>m \<in> fst ` set folders. prefix (cachePath @ [m]) q then Absent
               else kind_at fs q)"
    and o: "\<And>q. \<not> prefix cachePath q \<and> \<not> prefix q cachePath \<Longrightarrow> lookup fs' q = lookup fs q"
    by blast
  have "clear cachePath fs = (Inr (), fs')"
    using f dir by (simp add: clear_def step_def)
  moreover from emptied_dir [OF dir k] have "lookup fs' cachePath = Some (Dir [])" .
  moreover have "kind_at fs' q = (if strict_prefix cachePath q then Absent else kind_at fs q)" for q
  proof (cases "strict_prefix cachePath q")
    case True
    then obtain m r where q: "q = cachePath @ m # r"
      by (rule strict_prefixE')
    have "kind_at fs' (cachePath @ m # r) = Absent"
      using k [of "cachePath @ m # r"] kind_at_no_child [OF dir, of m r] by auto
    with q True show ?thesis by simp
  next
    case False
    then have "\<not> prefix (cachePath @ [m]) q" for m
      by (auto simp: strict_prefix_def prefix_def)
    with k [of q] False show ?thesis by auto
  qed
  ultimately show ?thesis using o by blast
qed

subsection \<open>No operation makes a file appear, other than the write of a shard\<close>

lemma files_iff: "(p, c) \<in> files fs \<longleftrightarrow> kind_at fs p = IsFile c"
  by (simp add: files_def)

lemma unlinkSync_files: "unlinkSync p t = Inr t' \<Longrightarrow> files t' \<subseteq> files t"
  using unlinkSync_kind(1) [of p t t'] by (auto simp: files_iff split: if_splits)

lemma rmdirSync_files: "rmdirSync p t = Inr t' \<Longrightarrow> files t' \<subseteq> files t"
  using rmdirSync_kind [of p t t'] by (auto simp: files_iff split: if_splits)

lemma mkdir_files: "mkdirSync_recursive p t = Inr t' \<Longrightarrow> files t' = files t"
  using mkdir_kind [of p t t'] by (auto simp: files_iff split: if_splits)

lemma writeFileSync_files:
  "writeFileSync p c t = Inr t' \<Longrightarrow> files t' = insert (p, c) {(q, c') \<in> files t. q \<noteq> p}"
  using writeFileSync_kind [of p c t t'] by (auto simp: files_iff split: if_splits)

lemma fold_invariant:
  "P a \<Longrightarrow> (\<And>x a. x \<in> set xs \<Longrightarrow> P a \<Longrightarrow> P (f x a)) \<Longrightarrow> P (fold f xs a)"
  by (induction xs arbitrary: a) simp_all

lemma removeDir_walk_files: "files (snd (removeDir_walk x dp fs)) \<subseteq> files fs"
proof (induction x arbitrary: dp fs rule: node_induct)
  case (File c')
  then show ?case by simp
next
  case (Dir es)
  define step where "step = (\<lambda>(file, x) (r :: error + unit, fs').
      case r of
        Inl e \<Rightarrow> (Inl e, fs')
      | Inr u \<Rightarrow>
          if is_dir x then removeDir_walk x (dp @ [file]) fs'
          else (case unlinkSync (dp @ [file]) fs' of
                  Inl e \<Rightarrow> (Inl e, fs')
                | Inr fs'' \<Rightarrow> (Inr (), fs'')))"
  define P where "P = (\<lambda>a :: (error + unit) \<times> node. files (snd a) \<subseteq> files fs)"
  have "P (fold step es (Inr (), fs))"
  proof (rule fold_invariant)
    show "P (Inr (), fs)" by (simp add: P_def)
  next
    fix e a assume e: "e \<in> set es" and a: "P a"
    obtain m y where my: "e = (m, y)" by (cases e)
    obtain r fs1 where rf: "a = (r, fs1)" by (cases a)
    from a rf have a': "files fs1 \<subseteq> files fs" by (simp add: P_def)
    have "files (snd (step e a)) \<subseteq> files fs1"
    proof (cases r)
      case (Inl err)
      with my rf show ?thesis by (simp add: step_def)
    next
      case (Inr u)
      show ?thesis
      proof (cases "is_dir y")
        case True
        with Inr my rf have "step e a = removeDir_walk y (dp @ [m]) fs1"
          by (simp add: step_def)
        with Dir.IH [of m y "dp @ [m]" fs1] e my show ?thesis by simp
      next
        case False
        show ?thesis
        proof (cases "unlinkSync (dp @ [m]) fs1")
          case (Inl err)
          with False Inr my rf show ?thesis by (simp add: step_def)
        next
          case u: (Inr fs2)
          with False Inr my rf have "step e a = (Inr (), fs2)" by (simp add: step_def)
          with unlinkSync_files [OF u] show ?thesis by simp
        qed
      qed
    qed
    with a' show "P (step e a)" unfolding P_def by blast
  qed
  then obtain r fs1 where f: "fold step es (Inr (), fs) = (r, fs1)"
    and p: "files fs1 \<subseteq> files fs"
    by (cases "fold step es (Inr (), fs)") (auto simp: P_def)
  have "files (snd (removeDir_walk (Dir es) dp fs)) \<subseteq> files fs1"
  proof (cases r)
    case (Inl err)
    with f show ?thesis by (simp add: step_def)
  next
    case (Inr u)
    show ?thesis
    proof (cases "rmdirSync dp fs1")
      case (Inl err)
      with Inr f show ?thesis by (simp add: step_def)
    next
      case r: (Inr fs2)
      with Inr f rmdirSync_files [OF r] show ?thesis by (simp add: step_def)
    qed
  qed
  then show ?case using p by (rule subset_trans)
qed

lemma removeDir_files: "files (snd (removeDir p fs)) \<subseteq> files fs"
  using removeDir_walk_files [of _ p fs] by (simp add: removeDir_def split: option.splits)

lemma clear_files: "files (snd (clear cachePath fs)) \<subseteq> files fs"
proof (cases "lookup fs cachePath")
  case None
  then show ?thesis by (simp add: clear_def)
next
  case (Some x)
  show ?thesis
  proof (cases x)
    case (File c')
    with Some show ?thesis by (simp add: clear_def)
  next
    case (Dir folders)
    define step where "step = (\<lambda>(folder, x) (r :: error + unit, fs').
      case r of
        Inl e \<Rightarrow> (Inl e, fs')
      | Inr u \<Rightarrow> if is_dir x then removeDir (cachePath @ [folder]) fs' else (Inr (), fs'))"
    define P where "P = (\<lambda>a :: (error + unit) \<times> node. files (snd a) \<subseteq> files fs)"
    have "P (fold step folders (Inr (), fs))"
    proof (rule fold_invariant)
      show "P (Inr (), fs)" by (simp add: P_def)
    next
      fix e a assume e: "e \<in> set folders" and a: "P a"
      obtain m y where my: "e = (m, y)" by (cases e)
      obtain r fs1 where rf: "a = (r, fs1)" by (cases a)
      from a rf have a': "files fs1 \<subseteq> files fs" by (simp add: P_def)
      have "files (snd (step e a)) \<subseteq> files fs1"
        using removeDir_files [of "cachePath @ [m]" fs1] my rf
        by (cases r) (simp_all add: step_def)
      with a' show "P (step e a)" unfolding P_def by blast
    qed
    with Some Dir show ?thesis
      by (simp add: clear_def step_def P_def)
  qed
qed

subsection \<open>The resolved paths\<close>

lemma folderPath_eq:
  "folderPath (getFilePath cachePath key) =
     cachePath @ [[getMd5 key ! 0], [getMd5 key ! 1], [getMd5 key ! 2]]"
  by (simp add: getFilePath_eq)

lemma filePath_eq:
  "filePath (getFilePath cachePath key) =
     folderPath (getFilePath cachePath key) @ [getMd5 key ! 3 # ''.json'']"
  by (simp add: getFilePath_eq)

lemma md5_eq: "md5 (getFilePath cachePath key) = getMd5 key"
  by (simp add: getFilePath_eq)

lemma filePath_not_prefix:
  "\<not> prefix (filePath (getFilePath cachePath key)) (folderPath (getFilePath cachePath key))"
  by (simp add: filePath_eq prefix_def)

lemma filePath_length: "filePath (getFilePath cachePath key) = cachePath @ p \<Longrightarrow> length p = 4"
  by (auto simp: getFilePath_eq)

subsection \<open>Errors of the system calls\<close>

lemma alter_error:
  "alter f p t = Inl e \<Longrightarrow> (\<And>old e. f old = Inl e \<Longrightarrow> \<exists>c. e = SystemError c) \<Longrightarrow>
   \<exists>c. e = SystemError c"
  by (induction f p t rule: alter.induct) (auto split: sum.splits option.splits)

lemma mkdir_error: "mkdirSync_recursive p t = Inl e \<Longrightarrow> \<exists>c. e = SystemError c"
  by (induction p t rule: mkdirSync_recursive.induct) (auto split: sum.splits)

lemma ensureDir_error: "ensureDir p t = Inl e \<Longrightarrow> \<exists>c. e = SystemError c"
  by (auto simp: ensureDir_def dest: mkdir_error split: if_splits)

lemma writeFile_error: "writeFile p data t = Inl e \<Longrightarrow> \<exists>c. e = SystemError c"
  unfolding writeFile_def writeFileSync_def
  by (erule alter_error) (auto split: option.splits node.splits)

lemma unlinkSync_error: "unlinkSync p t = Inl e \<Longrightarrow> \<exists>c. e = SystemError c"
  unfolding unlinkSync_def
  by (erule alter_error) (auto split: option.splits node.splits)

lemma assign_error: "assign data name v = Inl e \<Longrightarrow> e \<noteq> key_error"
  by (cases data) (auto simp: key_error_def)

lemma member_error: "member data name = Inl e \<Longrightarrow> e \<noteq> key_error"
  by (cases data) (auto simp: key_error_def)

subsection \<open>\<^verbatim>\<open>_ensureDir\<close>\<close>

lemma ensureDir_kind:
  assumes "ensureDir p t = Inr t'"
  shows "kind_at t' q = (if prefix q p \<and> kind_at t q = Absent then IsDir else kind_at t q)"
proof (cases "existsSync p t")
  case False
  with assms mkdir_kind [of p t t' q] show ?thesis by (simp add: ensureDir_def)
next
  case True
  then have "kind_at t q \<noteq> Absent" if "prefix q p"
    using that kind_at_below_absent [of t q] by (auto simp: existsSync_kind prefix_def)
  with True assms show ?thesis by (auto simp: ensureDir_def)
qed

lemma ensureDir_files: "ensureDir p t = Inr t' \<Longrightarrow> files t' = files t"
  using ensureDir_kind [of p t t'] by (auto simp: files_iff split: if_splits)

lemma ensureDir_lookup_prefix:
  "ensureDir (p @ r) t = Inr t' \<Longrightarrow> lookup t p = Some x \<Longrightarrow> wf_node x \<Longrightarrow> is_dir x \<Longrightarrow>
   \<exists>x'. lookup t' p = Some x' \<and> wf_node x' \<and> is_dir x'"
proof (cases "existsSync (p @ r) t")
  case True
  then show "ensureDir (p @ r) t = Inr t' \<Longrightarrow> lookup t p = Some x \<Longrightarrow> wf_node x \<Longrightarrow>
    is_dir x \<Longrightarrow> ?thesis"
    by (simp add: ensureDir_def)
next
  case False
  assume a: "ensureDir (p @ r) t = Inr t'" "lookup t p = Some x" "wf_node x" "is_dir x"
  with False have "mkdirSync_recursive (p @ r) t = Inr t'" by (simp add: ensureDir_def)
  from mkdir_lookup_prefix [OF this a(2)] obtain x'
    where "mkdirSync_recursive r x = Inr x'" "lookup t' p = Some x'" by blast
  with wf_mkdir [of r x x'] mkdir_is_dir [of r x x'] a show ?thesis by simp
qed

subsection \<open>The three operations on one key, step by step\<close>

lemma setItem_nonstring:
  "(\<And>k. key \<noteq> J (JStr k)) \<Longrightarrow> setItem cachePath key val now fs = (Inl key_error, fs)"
  by (cases key; simp add: setItem_def split: json.splits)

lemma getItem_nonstring:
  "(\<And>k. key \<noteq> J (JStr k)) \<Longrightarrow> getItem cachePath key fs = (Inl key_error, fs)"
  by (cases key; simp add: getItem_def split: json.splits)

lemma removeItem_nonstring:
  "(\<And>k. key \<noteq> J (JStr k)) \<Longrightarrow> removeItem cachePath key fs = (Inl key_error, fs)"
  by (cases key; simp add: removeItem_def split: json.splits)

lemma setItem_string_cases:
  assumes "setItem cachePath (J (JStr k)) val now fs = (r, fs')"
  obtains
    (mkdir_fails) e where
      "ensureDir (folderPath (getFilePath cachePath k)) fs = Inl e" "r = Inl e" "fs' = fs"
  | (assign_fails) fs1 e where
      "ensureDir (folderPath (getFilePath cachePath k)) fs = Inr fs1"
      "assign (readFile (filePath (getFilePath cachePath k)) fs1) (getMd5 k)
         (record_of k val now) = Inl e"
      "r = Inl e" "fs' = fs1"
  | (write_fails) fs1 data e where
      "ensureDir (folderPath (getFilePath cachePath k)) fs = Inr fs1"
      "assign (readFile (filePath (getFilePath cachePath k)) fs1) (getMd5 k)
         (record_of k val now) = Inr data"
      "writeFile (filePath (getFilePath cachePath k)) data fs1 = Inl e"
      "r = Inl e" "fs' = fs1"
  | (written) fs1 data where
      "ensureDir (folderPath (getFilePath cachePath k)) fs = Inr fs1"
      "assign (readFile (filePath (getFilePath cachePath k)) fs1) (getMd5 k)
         (record_of k val now) = Inr data"
      "writeFile (filePath (getFilePath cachePath k)) data fs1 = Inr fs'"
      "r = Inr ()"
  using assms unfolding setItem_def Let_def md5_eq
  by (auto split: sum.splits)

lemma getItem_string:
  "getItem cachePath (J (JStr k)) fs =
     (case kind_at fs (filePath (getFilePath cachePath k)) of
        IsFile (Parsed data) \<Rightarrow>
          (case member data (getMd5 k) of
             Inl e \<Rightarrow> Inl e
           | Inr Undefined \<Rightarrow> Inr (J JNull)
           | Inr (J item) \<Rightarrow> if truthy item then member item ''value'' else Inr (J JNull))
      | _ \<Rightarrow> Inr (J JNull), fs)"
  by (simp add: getItem_def Let_def md5_eq existsSync_kind readFile_kind
      split: kind.splits content.splits sum.splits jsvalue.splits)

lemma removeItem_string_cases:
  assumes "removeItem cachePath (J (JStr k)) fs = (r, fs')"
  obtains
    (nothing) "r = Inr ()" "fs' = fs"
      "\<not> truthy_value (case member (readFile (filePath (getFilePath cachePath k)) fs) (getMd5 k)
                          of Inl e \<Rightarrow> Undefined | Inr item \<Rightarrow> item)"
  | (throws) e where "r = Inl e" "fs' = fs" "e \<noteq> key_error"
  | (unlinked) item where
      "member (readFile (filePath (getFilePath cachePath k)) fs) (getMd5 k) = Inr item"
      "truthy_value item"
      "objectKeys (delete_member (readFile (filePath (getFilePath cachePath k)) fs) (getMd5 k)) = []"
      "unlinkSync (filePath (getFilePath cachePath k)) fs = Inr fs'" "r = Inr ()"
  | (rewritten) item where
      "member (readFile (filePath (getFilePath cachePath k)) fs) (getMd5 k) = Inr item"
      "truthy_value item"
      "objectKeys (delete_member (readFile (filePath (getFilePath cachePath k)) fs) (getMd5 k)) \<noteq> []"
      "writeFile (filePath (getFilePath cachePath k))
         (delete_member (readFile (filePath (getFilePath cachePath k)) fs) (getMd5 k)) fs = Inr fs'"
      "r = Inr ()"
proof -
  let ?fp = "filePath (getFilePath cachePath k)"
  let ?data = "readFile ?fp fs"
  let ?data' = "delete_member ?data (getMd5 k)"
  note defs = removeItem_def Let_def md5_eq
  show ?thesis
  proof (cases "existsSync ?fp fs")
    case False
    then have "?data = JObj []" by (simp add: readFile_def)
    moreover from False assms have "r = Inr ()" "fs' = fs" by (simp_all add: defs)
    ultimately show ?thesis by - (rule nothing, simp_all)
  next
    case True
    show ?thesis
    proof (cases "member ?data (getMd5 k)")
      case (Inl e)
      with True assms have "r = Inl e" "fs' = fs" by (simp_all add: defs)
      with member_error [OF Inl] show ?thesis by - (rule throws, simp_all)
    next
      case (Inr item)
      show ?thesis
      proof (cases "truthy_value item")
        case False
        with True Inr assms have "r = Inr ()" "fs' = fs" by (simp_all add: defs)
        with False Inr show ?thesis by - (rule nothing, simp_all)
      next
        case t: True
        show ?thesis
        proof (cases "objectKeys ?data' = []")
          case e: True
          show ?thesis
          proof (cases "unlinkSync ?fp fs")
            case (Inl err)
            with True Inr t e assms have "r = Inl err" "fs' = fs" by (simp_all add: defs)
            with unlinkSync_error [OF Inl] show ?thesis
              by - (rule throws, auto simp: key_error_def)
          next
            case u: (Inr fs2)
            with True Inr t e assms have "r = Inr ()" "fs' = fs2" by (simp_all add: defs)
            with Inr t e u show ?thesis by - (rule unlinked, simp_all)
          qed
        next
          case e: False
          show ?thesis
          proof (cases "writeFile ?fp ?data' fs")
            case (Inl err)
            with True Inr t e assms have "r = Inl err" "fs' = fs" by (simp_all add: defs)
            with writeFile_error [OF Inl] show ?thesis
              by - (rule throws, auto simp: key_error_def)
          next
            case u: (Inr fs2)
            with True Inr t e assms have "r = Inr ()" "fs' = fs2" by (simp_all add: defs)
            with Inr t e u show ?thesis by - (rule rewritten, simp_all)
          qed
        qed
      qed
    qed
  qed
qed

subsection \<open>The invariant of the store\<close>

lemma store_inv_fresh: "lookup fs cachePath = Some (Dir []) \<Longrightarrow> store_inv cachePath fs"
proof -
  assume l: "lookup fs cachePath = Some (Dir [])"
  have "kind_at fs (cachePath @ p) = (if p = [] then IsDir else Absent)" for p
    using l by (cases p) (simp_all add: kind_at_append kind_at_Cons_Dir, simp add: kind_at_def)
  with l show ?thesis by (simp add: store_inv_def)
qed

lemma shard_ok_update:
  assumes "doc = [] \<or> shard_ok cachePath p (Parsed (JObj doc))"
    and "p = filePath (getFilePath cachePath k)"
  shows "shard_ok cachePath p (Parsed (JObj (AList.update (getMd5 k) (record_of k v t) doc)))"
proof -
  let ?doc = "AList.update (getMd5 k) (record_of k v t) doc"
  have "?doc \<noteq> []" by (cases doc) simp_all
  moreover from assms(1) have "distinct (map fst ?doc)"
    by (auto simp: shard_ok_def distinct_update)
  moreover have "\<exists>k' v' t'. snd e = record_of k' v' t' \<and> fst e = getMd5 k' \<and>
      p = filePath (getFilePath cachePath k')" if "e \<in> set ?doc" for e
  proof -
    from that set_update_subset [of "getMd5 k" "record_of k v t" doc]
    have "e = (getMd5 k, record_of k v t) \<or> e \<in> set doc" by auto
    then show ?thesis
    proof
      assume "e = (getMd5 k, record_of k v t)"
      with assms(2) show ?thesis by auto
    next
      assume "e \<in> set doc"
      with assms(1) show ?thesis by (auto simp: shard_ok_def)
    qed
  qed
  ultimately show ?thesis by (simp add: shard_ok_def)
qed

lemma shard_ok_delete:
  assumes "shard_ok cachePath p (Parsed (JObj doc))" and "AList.delete d doc \<noteq> []"
  shows "shard_ok cachePath p (Parsed (JObj (AList.delete d doc)))"
  using assms set_delete_subset [of d doc]
  by (auto simp: shard_ok_def distinct_delete)

lemma wf_alter_write:
  "alter (\<lambda>old. case old of Some (Dir es) \<Rightarrow> Inl e0 | _ \<Rightarrow> Inr (Some (File c))) p t = Inr t' \<Longrightarrow>
   wf_node t \<Longrightarrow> wf_node t'"
  by (erule wf_alter) (auto split: option.splits node.splits)

lemma wf_alter_unlink:
  "alter (\<lambda>old. case old of None \<Rightarrow> Inl e0 | Some (Dir es) \<Rightarrow> Inl e1
                          | Some (File c) \<Rightarrow> Inr None) p t = Inr t' \<Longrightarrow>
   wf_node t \<Longrightarrow> wf_node t'"
  by (erule wf_alter) (auto split: option.splits node.splits)

lemma store_inv_prefix_not_file:
  assumes inv: "store_inv cachePath fs"
    and pre: "prefix q (folderPath (getFilePath cachePath k))"
  shows "kind_at fs q \<noteq> IsFile c"
proof (cases "prefix q cachePath")
  case True
  then obtain r where r: "cachePath = q @ r" by (auto simp: prefix_def)
  from inv obtain x where x: "lookup fs cachePath = Some x" "is_dir x"
    by (auto simp: store_inv_def)
  then have "kind_at fs cachePath = IsDir" by (cases x) (simp_all add: kind_at_def)
  with r kind_at_above [of fs q r] show ?thesis by (cases "r = []") auto
next
  case False
  with pre obtain p where q: "q = cachePath @ p"
    and p: "prefix p [[getMd5 k ! 0], [getMd5 k ! 1], [getMd5 k ! 2]]"
    by (auto simp: folderPath_eq prefix_append)
  show ?thesis
  proof
    assume "kind_at fs q = IsFile c"
    with inv q have "shard_ok cachePath (cachePath @ p) c" by (simp add: store_inv_def)
    then obtain k' where "cachePath @ p = filePath (getFilePath cachePath k')"
      by (auto simp: shard_ok_def neq_Nil_conv)
    from filePath_length [OF this [symmetric]] have "length p = 4" .
    moreover from p have "length p \<le> 3" by (auto dest: prefix_length_le)
    ultimately show False by simp
  qed
qed

lemma store_inv_shard:
  assumes inv: "store_inv cachePath fs"
  shows "kind_at fs (filePath (getFilePath cachePath k)) = Absent \<and>
           readFile (filePath (getFilePath cachePath k)) fs = JObj [] \<or>
         (\<exists>doc. kind_at fs (filePath (getFilePath cachePath k)) = IsFile (Parsed (JObj doc)) \<and>
                readFile (filePath (getFilePath cachePath k)) fs = JObj doc \<and>
                shard_ok cachePath (filePath (getFilePath cachePath k)) (Parsed (JObj doc)))"
proof -
  let ?fp = "filePath (getFilePath cachePath k)"
  obtain p where p: "?fp = cachePath @ p" "length p = 4"
    by (simp add: getFilePath_eq)
  show ?thesis
  proof (cases "kind_at fs ?fp")
    case Absent
    then show ?thesis by (simp add: readFile_kind)
  next
    case IsDir
    with inv p have "length p \<le> 3" by (auto simp: store_inv_def)
    with p show ?thesis by simp
  next
    case (IsFile c)
    with inv p have "shard_ok cachePath ?fp c" by (simp add: store_inv_def)
    with IsFile show ?thesis by (auto simp: shard_ok_def readFile_kind)
  qed
qed

lemma store_inv_setItem:
  assumes inv: "store_inv cachePath fs"
  shows "\<exists>fs' doc. setItem cachePath (J (JStr k)) v now fs = (Inr (), fs') \<and>
           readFile (filePath (getFilePath cachePath k)) fs = JObj doc \<and>
           kind_at fs' (filePath (getFilePath cachePath k)) =
             IsFile (Parsed (JObj (AList.update (getMd5 k) (record_of k v now) doc))) \<and>
           (\<forall>q. q \<noteq> filePath (getFilePath cachePath k) \<longrightarrow>
                kind_at fs' q =
                  (if prefix q (folderPath (getFilePath cachePath k)) \<and> kind_at fs q = Absent
                   then IsDir else kind_at fs q)) \<and>
           store_inv cachePath fs'"
proof -
  let ?fp = "filePath (getFilePath cachePath k)"
  let ?dp = "folderPath (getFilePath cachePath k)"
  let ?rec = "record_of k v now"
  define rel where "rel = [[getMd5 k ! 0], [getMd5 k ! 1], [getMd5 k ! 2]]"
  define fn where "fn = getMd5 k ! 3 # ''.json''"
  have dp: "?dp = cachePath @ rel" and fp: "?fp = ?dp @ [fn]" and fp': "?fp = cachePath @ rel @ [fn]"
    by (simp_all add: getFilePath_eq rel_def fn_def)
  \<comment> \<open>the directories\<close>
  have "\<exists>fs1. ensureDir ?dp fs = Inr fs1"
  proof (cases "existsSync ?dp fs")
    case True
    then show ?thesis by (simp add: ensureDir_def)
  next
    case False
    from mkdir_succeeds [of ?dp fs] store_inv_prefix_not_file [OF inv]
    obtain fs1 where "mkdirSync_recursive ?dp fs = Inr fs1" by blast
    with False show ?thesis by (simp add: ensureDir_def)
  qed
  then obtain fs1 where e: "ensureDir ?dp fs = Inr fs1" by blast
  note k1 = ensureDir_kind [OF e]
  have same: "kind_at fs1 ?fp = kind_at fs ?fp"
    using k1 [of ?fp] filePath_not_prefix [of cachePath k] by simp
  then have read: "readFile ?fp fs1 = readFile ?fp fs" by (simp add: readFile_kind)
  from store_inv_shard [OF inv, of k] obtain doc where doc: "readFile ?fp fs = JObj doc"
    and ok: "doc = [] \<or> shard_ok cachePath ?fp (Parsed (JObj doc))"
    and nd: "kind_at fs ?fp \<noteq> IsDir"
    by auto
  let ?data = "JObj (AList.update (getMd5 k) ?rec doc)"
  have a: "assign (readFile ?fp fs1) (getMd5 k) ?rec = Inr ?data"
    by (simp add: read doc)
  \<comment> \<open>the write\<close>
  have "kind_at fs1 ?dp = IsDir"
    using k1 [of ?dp] store_inv_prefix_not_file [OF inv, of ?dp k]
    by (cases "kind_at fs ?dp") auto
  with writeFileSync_succeeds [of fs1 ?dp fn "Parsed ?data"] same nd
  obtain fs' where w: "writeFile ?fp ?data fs1 = Inr fs'"
    by (auto simp: fp writeFile_def)
  note k2 = writeFileSync_kind [OF w [unfolded writeFile_def]]
  have res: "setItem cachePath (J (JStr k)) v now fs = (Inr (), fs')"
    using e a w by (simp add: setItem_def Let_def md5_eq)
  have kinds: "kind_at fs' q =
      (if prefix q ?dp \<and> kind_at fs q = Absent then IsDir else kind_at fs q)" if "q \<noteq> ?fp" for q
    using k2 [of q] k1 [of q] that by simp
  \<comment> \<open>the invariant\<close>
  from inv obtain x where x: "lookup fs cachePath = Some x" "is_dir x" "wf_node x"
    by (auto simp: store_inv_def)
  from ensureDir_lookup_prefix [OF e [unfolded dp] x(1) x(3) x(2)] obtain x1
    where x1: "lookup fs1 cachePath = Some x1" "wf_node x1" "is_dir x1" by blast
  from alter_lookup_prefix [OF w [unfolded writeFile_def writeFileSync_def fp'], of ]
  obtain y y' where y: "lookup fs1 cachePath = Some y"
    and al: "alter (\<lambda>old. case old of Some (Dir es) \<Rightarrow> Inl (SystemError ''EISDIR'')
                                   | _ \<Rightarrow> Inr (Some (File (Parsed ?data)))) (rel @ [fn]) y = Inr y'"
    and y': "lookup fs' cachePath = Some y'"
    by auto
  from y x1 have "y = x1" by simp
  with wf_alter_write [OF al] x1 have "wf_node y'" by simp
  with alter_is_dir [OF al] y' have i1: "\<exists>x. lookup fs' cachePath = Some x \<and> is_dir x \<and> wf_node x"
    by simp
  have i2: "length p \<le> 3" if "kind_at fs' (cachePath @ p) = IsDir" for p
  proof -
    from that k2 [of "cachePath @ p"] have ne: "cachePath @ p \<noteq> ?fp" by auto
    show ?thesis
    proof (cases "kind_at fs (cachePath @ p) = IsDir")
      case True
      with inv show ?thesis by (simp add: store_inv_def)
    next
      case False
      with kinds [OF ne] that have "prefix (cachePath @ p) ?dp" by (auto split: if_splits)
      then have "prefix p rel" by (simp add: dp)
      then show ?thesis by (auto simp: rel_def dest: prefix_length_le)
    qed
  qed
  have i3: "shard_ok cachePath (cachePath @ p) c" if "kind_at fs' (cachePath @ p) = IsFile c" for p c
  proof (cases "cachePath @ p = ?fp")
    case True
    with that k2 [of ?fp] have "c = Parsed ?data" by simp
    with shard_ok_update [OF ok refl, of v now] True show ?thesis by simp
  next
    case False
    with kinds [OF False] that have "kind_at fs (cachePath @ p) = IsFile c"
      by (auto split: if_splits)
    with inv show ?thesis by (simp add: store_inv_def)
  qed
  from i1 i2 i3 have "store_inv cachePath fs'" by (simp add: store_inv_def)
  with res doc k2 [of ?fp] kinds show ?thesis by auto
qed

lemma delete_absent: "map_of al k = None \<Longrightarrow> AList.delete k al = al"
  by (induction al) (auto split: if_splits)

lemma truthy_record: "truthy (record_of k v t)"
  by (simp add: record_of_def)

lemma member_record_value: "member (record_of k v t) ''value'' = Inr (J v)"
  by (simp add: record_of_def)

lemma shard_ok_item:
  "shard_ok cachePath p (Parsed (JObj doc)) \<Longrightarrow> map_of doc d = Some item \<Longrightarrow>
   \<exists>k v t. item = record_of k v t \<and> d = getMd5 k \<and> p = filePath (getFilePath cachePath k)"
proof -
  assume ok: "shard_ok cachePath p (Parsed (JObj doc))" and m: "map_of doc d = Some item"
  from m have "(d, item) \<in> set doc" by (rule map_of_SomeD)
  with ok have "\<exists>k v t. snd (d, item) = record_of k v t \<and> fst (d, item) = getMd5 k \<and>
      p = filePath (getFilePath cachePath k)"
    unfolding shard_ok_def by blast
  then show ?thesis by simp
qed

lemma store_inv_removeItem:
  assumes inv: "store_inv cachePath fs"
  shows "\<exists>fs' doc. removeItem cachePath (J (JStr k)) fs = (Inr (), fs') \<and>
           readFile (filePath (getFilePath cachePath k)) fs = JObj doc \<and>
           kind_at fs' (filePath (getFilePath cachePath k)) =
             (if AList.delete (getMd5 k) doc = [] then Absent
              else IsFile (Parsed (JObj (AList.delete (getMd5 k) doc)))) \<and>
           (\<forall>q. q \<noteq> filePath (getFilePath cachePath k) \<longrightarrow> kind_at fs' q = kind_at fs q) \<and>
           store_inv cachePath fs'"
proof -
  let ?fp = "filePath (getFilePath cachePath k)"
  let ?dp = "folderPath (getFilePath cachePath k)"
  let ?d = "getMd5 k"
  define rel where "rel = [[getMd5 k ! 0], [getMd5 k ! 1], [getMd5 k ! 2]]"
  define fn where "fn = getMd5 k ! 3 # ''.json''"
  have dp: "?dp = cachePath @ rel" and fp: "?fp = ?dp @ [fn]" and fp': "?fp = cachePath @ rel @ [fn]"
    by (simp_all add: getFilePath_eq rel_def fn_def)
  note defs = removeItem_def Let_def md5_eq
  from inv obtain x where x: "lookup fs cachePath = Some x" "is_dir x" "wf_node x"
    by (auto simp: store_inv_def)
  from store_inv_shard [OF inv, of k] show ?thesis
  proof (elim disjE conjE exE)
    assume "kind_at fs ?fp = Absent" "readFile ?fp fs = JObj []"
    with inv show ?thesis by (auto simp: defs existsSync_kind)
  next
    fix doc
    assume k: "kind_at fs ?fp = IsFile (Parsed (JObj doc))" and r: "readFile ?fp fs = JObj doc"
      and ok: "shard_ok cachePath ?fp (Parsed (JObj doc))"
    from k have ex: "existsSync ?fp fs" by (simp add: existsSync_kind)
    from ok have ne: "doc \<noteq> []" by (simp add: shard_ok_def)
    show ?thesis
    proof (cases "map_of doc ?d")
      case None
      with ex r have "removeItem cachePath (J (JStr k)) fs = (Inr (), fs)"
        by (simp add: defs)
      with None r k ne inv show ?thesis by (auto simp: delete_absent)
    next
      case (Some item)
      from shard_ok_item [OF ok Some] have t: "truthy item" by (auto simp: truthy_record)
      show ?thesis
      proof (cases "AList.delete ?d doc = []")
        case True
        from unlinkSync_succeeds [of fs ?dp fn] k obtain fs'
          where u: "unlinkSync ?fp fs = Inr fs'" by (auto simp: fp)
        note ku = unlinkSync_kind(1) [OF u]
        have res: "removeItem cachePath (J (JStr k)) fs = (Inr (), fs')"
          using ex r Some t True u by (simp add: defs)
        from alter_lookup_prefix [OF u [unfolded unlinkSync_def fp']] x obtain y'
          where al: "alter (\<lambda>old. case old of None \<Rightarrow> Inl (SystemError ''ENOENT'')
                             | Some (Dir es) \<Rightarrow> Inl (SystemError ''EISDIR'')
                             | Some (File c) \<Rightarrow> Inr None) (rel @ [fn]) x = Inr y'"
          and y': "lookup fs' cachePath = Some y'"
          by auto
        from wf_alter_unlink [OF al x(3)] alter_is_dir [OF al] y'
        have i1: "\<exists>x. lookup fs' cachePath = Some x \<and> is_dir x \<and> wf_node x" by simp
        from inv ku have "store_inv cachePath fs'"
          unfolding store_inv_def using i1 by (auto split: if_splits)
        with res r True ku show ?thesis by auto
      next
        case False
        let ?data = "JObj (AList.delete ?d doc)"
        from k have "kind_at fs ?dp = IsDir"
          using kind_at_above [of fs ?dp "[fn]"] by (simp add: fp)
        with writeFileSync_succeeds [of fs ?dp fn "Parsed ?data"] k obtain fs'
          where w: "writeFile ?fp ?data fs = Inr fs'" by (auto simp: fp writeFile_def)
        note kw = writeFileSync_kind [OF w [unfolded writeFile_def]]
        have res: "removeItem cachePath (J (JStr k)) fs = (Inr (), fs')"
          using ex r Some t False w by (simp add: defs)
        from alter_lookup_prefix [OF w [unfolded writeFile_def writeFileSync_def fp']] x obtain y'
          where al: "alter (\<lambda>old. case old of Some (Dir es) \<Rightarrow> Inl (SystemError ''EISDIR'')
                                   | _ \<Rightarrow> Inr (Some (File (Parsed ?data)))) (rel @ [fn]) x = Inr y'"
          and y': "lookup fs' cachePath = Some y'"
          by auto
        from wf_alter_write [OF al x(3)] alter_is_dir [OF al] y'
        have i1: "\<exists>x. lookup fs' cachePath = Some x \<and> is_dir x \<and> wf_node x" by simp
        have i2: "length p \<le> 3" if "kind_at fs' (cachePath @ p) = IsDir" for p
          using that kw [of "cachePath @ p"] inv by (auto simp: store_inv_def split: if_splits)
        have i3: "shard_ok cachePath (cachePath @ p) c"
          if "kind_at fs' (cachePath @ p) = IsFile c" for p c
        proof (cases "cachePath @ p = ?fp")
          case True
          with that kw [of ?fp] have "c = Parsed ?data" by simp
          with shard_ok_delete [OF ok False] True show ?thesis by simp
        next
          case False
          with that kw [of "cachePath @ p"] inv show ?thesis by (simp add: store_inv_def)
        qed
        from i1 i2 i3 have "store_inv cachePath fs'" by (simp add: store_inv_def)
        with res r False kw show ?thesis by auto
      qed
    qed
  qed
qed

lemma store_inv_clear:
  assumes inv: "store_inv cachePath fs"
  shows "\<exists>fs'. clear cachePath fs = (Inr (), fs') \<and> lookup fs' cachePath = Some (Dir []) \<and>
           (\<forall>q. kind_at fs' q = (if strict_prefix cachePath q then Absent else kind_at fs q)) \<and>
           store_inv cachePath fs'"
proof -
  from inv obtain folders where dir: "lookup fs cachePath = Some (Dir folders)"
    and wf: "wf_node (Dir folders)"
    by (auto simp: store_inv_def elim: is_dir.elims)
  have dirs: "is_dir y" if "(m, y) \<in> set folders" for m y
  proof (cases y)
    case (Dir es)
    then show ?thesis by simp
  next
    case (File c)
    from wf have "distinct (map fst folders)" by simp
    from lookup_child [OF dir this that] File
    have "kind_at fs (cachePath @ [m]) = IsFile c" by (simp add: kind_at_def)
    with inv have "shard_ok cachePath (cachePath @ [m]) c" by (simp add: store_inv_def)
    then obtain k where "cachePath @ [m] = filePath (getFilePath cachePath k)"
      by (auto simp: shard_ok_def neq_Nil_conv)
    from filePath_length [OF this [symmetric]] show ?thesis by simp
  qed
  then have "\<forall>e \<in> set folders. is_dir (snd e)" by auto
  from clear_ok [OF dir wf this] obtain fs' where
    c: "clear cachePath fs = (Inr (), fs')" "lookup fs' cachePath = Some (Dir [])"
      "\<forall>q. kind_at fs' q = (if strict_prefix cachePath q then Absent else kind_at fs q)"
    by blast
  with store_inv_fresh [OF c(2)] show ?thesis by blast
qed

lemma getItem_state: "snd (getItem cachePath key fs) = fs"
  by (cases "\<exists>k. key = J (JStr k)") (auto simp: getItem_string getItem_nonstring)

lemma keys_state: "snd (keys cachePath fs) = fs"
  by (simp add: keys_def split: sum.splits)

lemma length_state: "snd (length_property cachePath fs) = fs"
  using keys_state [of cachePath fs]
  by (cases "keys cachePath fs") (simp add: length_property_def split: sum.splits)

lemma store_state_inv: "store_state cachePath fs \<Longrightarrow> store_inv cachePath fs"
proof (induction rule: store_state.induct)
  case (fresh fs)
  then show ?case by (rule store_inv_fresh)
next
  case (step fs op)
  show ?case
  proof (cases op)
    case (SetItem key val now)
    show ?thesis
    proof (cases "\<exists>k. key = J (JStr k)")
      case True
      with store_inv_setItem [OF step.IH] SetItem show ?thesis by (metis snd_conv state_after.simps(1))
    next
      case False
      with step.IH SetItem show ?thesis by (simp add: setItem_nonstring)
    qed
  next
    case (GetItem key)
    with step.IH show ?thesis by (simp add: getItem_state)
  next
    case (RemoveItem key)
    show ?thesis
    proof (cases "\<exists>k. key = J (JStr k)")
      case True
      with store_inv_removeItem [OF step.IH] RemoveItem show ?thesis
        by (metis snd_conv state_after.simps(3))
    next
      case False
      with step.IH RemoveItem show ?thesis by (simp add: removeItem_nonstring)
    qed
  next
    case Clear
    with store_inv_clear [OF step.IH] show ?thesis by (metis snd_conv state_after.simps(4))
  next
    case Keys
    with step.IH show ?thesis by (simp add: keys_state)
  next
    case Length
    with step.IH show ?thesis by (simp add: length_state)
  qed
qed

subsection \<open>Digests of some keys\<close>

lemma replicate_unroll: "0 < n \<Longrightarrow> replicate n x = x # replicate (n - 1) x"
  by (cases n) simp_all

lemma upt_0_numeral: "[0..<numeral n] = 0 # [Suc 0..<numeral n]"
  by (simp add: upt_conv_Cons)

lemma upt_1_numeral:
  "[Suc 0..<numeral n] = (if Suc 0 < numeral n then Suc 0 # [2..<numeral n] else [])"
  by (simp add: upt_rec [of "Suc 0"] numeral_2_eq_2)

lemmas md5_eval = getMd5_def md5_digest_def md5_pad_def md5_block_def le_word_def
  md5_F_def md5_g_def md5_K_def md5_S_def rotl32_def add32_def not32_def
  word_bytes_def hex_byte_def hex_digit_def replicate_unroll upt_0_numeral upt_1_numeral

lemma getMd5_empty: "getMd5 '''' = ''d41d8cd98f00b204e9800998ecf8427e''"
  by (simp add: md5_eval)

lemma getMd5_username: "getMd5 ''username'' = ''14c4b06b824ec593239362517f538b29''"
  by (simp add: md5_eval)

lemma getMd5_key171: "getMd5 ''key171'' = ''1545201232175b0c7f5eacfbc1af0196''"
  by (simp add: md5_eval)

lemma getMd5_key315: "getMd5 ''key315'' = ''1545dfe6024f38ecd12ae421fe124150''"
  by (simp add: md5_eval)

lemma same_prefix_same_file:
  assumes "take 4 (getMd5 k1) = take 4 (getMd5 k2)"
  shows "getFilePath cachePath k1 = getFilePath cachePath k2 \<lparr>md5 := getMd5 k1\<rparr>"
proof -
  have "getMd5 k1 ! i = getMd5 k2 ! i" if "i < 4" for i
    using assms that by (metis nth_take)
  from this [of 0] this [of 1] this [of 2] this [of 3] show ?thesis
    by (simp add: getFilePath_eq)
qed

subsection \<open>Files that an operation leaves alone\<close>

lemma setItem_files_frame:
  assumes "q \<noteq> filePath (getFilePath cachePath k)"
  shows "(q, c) \<in> files (snd (setItem cachePath (J (JStr k)) v now fs)) \<longleftrightarrow> (q, c) \<in> files fs"
proof -
  obtain r fs' where s: "setItem cachePath (J (JStr k)) v now fs = (r, fs')"
    by (cases "setItem cachePath (J (JStr k)) v now fs")
  from s have "(q, c) \<in> files fs' \<longleftrightarrow> (q, c) \<in> files fs"
  proof (cases rule: setItem_string_cases)
    case (written fs1 data)
    from writeFileSync_files [OF written(3) [unfolded writeFile_def]] ensureDir_files [OF written(1)]
      assms show ?thesis by auto
  qed (auto dest: ensureDir_files)
  with s show ?thesis by simp
qed

lemma update_not_Nil: "AList.update k v al \<noteq> []"
  by (cases al) simp_all

lemma assign_not_empty: "assign data name v = Inr data' \<Longrightarrow> data' \<noteq> JObj []"
  by (cases data) (auto simp: update_not_Nil)

lemma setItem_no_empty:
  "(p, Parsed (JObj [])) \<in> files (snd (setItem cachePath key v now fs)) \<Longrightarrow>
   (p, Parsed (JObj [])) \<in> files fs"
proof (cases "\<exists>k. key = J (JStr k)")
  case False
  then show "(p, Parsed (JObj [])) \<in> files (snd (setItem cachePath key v now fs)) \<Longrightarrow> ?thesis"
    by (simp add: setItem_nonstring)
next
  case True
  then obtain k where k: "key = J (JStr k)" by blast
  assume a: "(p, Parsed (JObj [])) \<in> files (snd (setItem cachePath key v now fs))"
  obtain r fs' where s: "setItem cachePath (J (JStr k)) v now fs = (r, fs')"
    by (cases "setItem cachePath (J (JStr k)) v now fs")
  from s have "(p, Parsed (JObj [])) \<in> files fs' \<Longrightarrow> (p, Parsed (JObj [])) \<in> files fs"
  proof (cases rule: setItem_string_cases)
    case (written fs1 data)
    from writeFileSync_files [OF written(3) [unfolded writeFile_def]] ensureDir_files [OF written(1)]
      assign_not_empty [OF written(2)]
    show "(p, Parsed (JObj [])) \<in> files fs' \<Longrightarrow> ?thesis" by auto
  qed (auto dest: ensureDir_files)
  with s a k show ?thesis by simp
qed

lemma removeItem_no_empty:
  "(p, Parsed (JObj [])) \<in> files (snd (removeItem cachePath key fs)) \<Longrightarrow>
   (p, Parsed (JObj [])) \<in> files fs"
proof (cases "\<exists>k. key = J (JStr k)")
  case False
  then show "(p, Parsed (JObj [])) \<in> files (snd (removeItem cachePath key fs)) \<Longrightarrow> ?thesis"
    by (simp add: removeItem_nonstring)
next
  case True
  then obtain k where k: "key = J (JStr k)" by blast
  assume a: "(p, Parsed (JObj [])) \<in> files (snd (removeItem cachePath key fs))"
  obtain r fs' where s: "removeItem cachePath (J (JStr k)) fs = (r, fs')"
    by (cases "removeItem cachePath (J (JStr k)) fs")
  from s have "(p, Parsed (JObj [])) \<in> files fs' \<Longrightarrow> (p, Parsed (JObj [])) \<in> files fs"
  proof (cases rule: removeItem_string_cases)
    case (unlinked item)
    from unlinkSync_files [OF unlinked(4)]
    show "(p, Parsed (JObj [])) \<in> files fs' \<Longrightarrow> ?thesis" by auto
  next
    case (rewritten item)
    from rewritten(3) have "delete_member (readFile (filePath (getFilePath cachePath k)) fs)
        (getMd5 k) \<noteq> JObj []"
      by auto
    with writeFileSync_files [OF rewritten(4) [unfolded writeFile_def]]
    show "(p, Parsed (JObj [])) \<in> files fs' \<Longrightarrow> ?thesis" by auto
  qed auto
  with s a k show ?thesis by simp
qed

lemmas fs_eval = setItem_def getItem_def removeItem_def keys_def length_property_def
  getAllJsonFiles_def fileKeys_def pushKey_def Let_def getFilePath_eq
  ensureDir_def existsSync_def readFile_def readFileSync_def writeFile_def writeFileSync_def
  unlinkSync_def endsWith_def

lemma setItem_username:
  "setItem [''cache''] (J (JStr ''username'')) (JStr ''zhangsan'') 1 (Dir [(''cache'', Dir [])]) =
     (Inr (),
      Dir [(''cache'', Dir [(''1'', Dir [(''4'', Dir [(''c'', Dir [(''4.json'',
        File (Parsed (JObj [(''14c4b06b824ec593239362517f538b29'',
                             record_of ''username'' (JStr ''zhangsan'') 1)])))])])])])])"
  by (simp add: fs_eval getMd5_username)

lemma setItem_empty_key:
  "setItem [''cache''] (J (JStr '''')) (JStr ''v'') 1 (Dir [(''cache'', Dir [])]) =
     (Inr (),
      Dir [(''cache'', Dir [(''d'', Dir [(''4'', Dir [(''1'', Dir [(''d.json'',
        File (Parsed (JObj [(''d41d8cd98f00b204e9800998ecf8427e'',
                             record_of '''' (JStr ''v'') 1)])))])])])])])"
  by (simp add: fs_eval getMd5_empty)

subsection \<open>The walk over the tree depends on its shape only\<close>

lemma is_dir_shape: "is_dir (shape x) = is_dir x"
  by (cases x) simp_all

lemma jsonFiles_walk_shape: "jsonFiles_walk (shape x) dp acc = jsonFiles_walk x dp acc"
proof (induction x arbitrary: dp acc rule: node_induct)
  case (File c)
  show ?case by simp
next
  case (Dir es)
  have "fold (\<lambda>(file, x) fl.
             if is_dir x then jsonFiles_walk x (dp @ [file]) fl
             else if endsWith file ''.json'' then fl @ [dp @ [file]]
             else fl) (map (\<lambda>e. (fst e, shape (snd e))) es) acc =
        fold (\<lambda>(file, x) fl.
             if is_dir x then jsonFiles_walk x (dp @ [file]) fl
             else if endsWith file ''.json'' then fl @ [dp @ [file]]
             else fl) es acc"
    unfolding fold_map
  proof (rule fold_cong [OF refl refl])
    fix e assume "e \<in> set es"
    obtain m y where e: "e = (m, y)" by (cases e)
    with \<open>e \<in> set es\<close> have "(m, y) \<in> set es" by simp
    from Dir.IH [OF this] e
    show "((\<lambda>(file, x) fl.
             if is_dir x then jsonFiles_walk x (dp @ [file]) fl
             else if endsWith file ''.json'' then fl @ [dp @ [file]]
             else fl) \<circ> (\<lambda>e. (fst e, shape (snd e)))) e =
          (\<lambda>(file, x) fl.
             if is_dir x then jsonFiles_walk x (dp @ [file]) fl
             else if endsWith file ''.json'' then fl @ [dp @ [file]]
             else fl) e"
      by (simp add: is_dir_shape fun_eq_iff)
  qed
  then show ?case by simp
qed

lemma map_of_shape:
  "map_of (map (\<lambda>e. (fst e, shape (snd e))) es) n = map_option shape (map_of es n)"
  by (induction es) auto

lemma lookup_shape: "lookup (shape t) p = map_option shape (lookup t p)"
proof (induction t p rule: lookup.induct)
  case (3 es n p)
  then show ?case by (cases "map_of es n") (simp_all add: map_of_shape)
qed simp_all

lemma getAllJsonFiles_shape: "getAllJsonFiles dp (shape t) = getAllJsonFiles dp t"
proof (cases "lookup t dp")
  case None
  then show ?thesis by (simp add: getAllJsonFiles_def lookup_shape)
next
  case (Some x)
  show ?thesis
  proof (cases x)
    case (File c)
    with Some show ?thesis by (simp add: getAllJsonFiles_def lookup_shape)
  next
    case (Dir es)
    from jsonFiles_walk_shape [of "Dir es" dp "[]"] Some Dir show ?thesis
      by (simp add: getAllJsonFiles_def lookup_shape)
  qed
qed

lemma shape_update_same:
  "map_of es n = Some x \<Longrightarrow> shape x' = shape x \<Longrightarrow>
   map (\<lambda>e. (fst e, shape (snd e))) (AList.update n x' es) = map (\<lambda>e. (fst e, shape (snd e))) es"
  by (induction es) (auto split: if_splits)

lemma shape_alter_file:
  "alter f p t = Inr t' \<Longrightarrow> kind_at t p = IsFile c0 \<Longrightarrow> f (Some (File c0)) = Inr (Some (File c)) \<Longrightarrow>
   shape t' = shape t"
proof (induction f p t arbitrary: t' rule: alter.induct)
  case (3 f n es)
  from "3.prems"(2) have m: "map_of es n = Some (File c0)"
    by (auto simp: kind_at_Cons_Dir kind_at_Nil split: option.splits node.splits)
  with "3.prems" have "t' = Dir (AList.update n (File c) es)" by simp
  with shape_update_same [OF m, of "File c"] show ?case by simp
next
  case (4 f n m p es)
  from "4.prems"(1) obtain x x' where x: "map_of es n = Some x"
    and x': "alter f (m # p) x = Inr x'"
    and t': "t' = Dir (AList.update n x' es)"
    by (auto split: sum.splits option.splits)
  from "4.prems"(2) x have "kind_at x (m # p) = IsFile c0" by (simp add: kind_at_Cons_Dir)
  from "4.IH" [OF x x' this "4.prems"(3)] have "shape x' = shape x" .
  with shape_update_same [OF x] t' show ?case by simp
qed (simp_all add: kind_at_def)

lemma shape_rewrite:
  "writeFileSync p c t = Inr t' \<Longrightarrow> kind_at t p = IsFile c0 \<Longrightarrow> shape t' = shape t"
  unfolding writeFileSync_def by (erule shape_alter_file) simp_all

lemma keys_rewrite_empty:
  assumes w: "writeFileSync p (Parsed (JObj [])) fs = Inr fs0"
    and u: "kind_at fs p = IsFile Unparsable"
  shows "fst (keys cachePath fs0) = fst (keys cachePath fs)"
proof -
  have "getAllJsonFiles cachePath fs0 = getAllJsonFiles cachePath fs"
    using getAllJsonFiles_shape [of cachePath fs0] getAllJsonFiles_shape [of cachePath fs]
      shape_rewrite [OF w u] by simp
  moreover have "readFile q fs0 = readFile q fs" for q
    using writeFileSync_kind [OF w, of q] u by (simp add: readFile_kind)
  then have "fileKeys q fs0 = fileKeys q fs" for q
    by (simp add: fileKeys_def fun_eq_iff)
  ultimately show ?thesis
    by (simp add: keys_def split: sum.splits)
qed

subsection \<open>Further facts on the states of the store\<close>

lemma mkdir_creates:
  "mkdirSync_recursive p t = Inr t' \<Longrightarrow> lookup t p = None \<Longrightarrow> lookup t' p = Some (Dir [])"
proof (induction p t arbitrary: t' rule: mkdirSync_recursive.induct)
  case (4 n p es)
  define x where "x = (case map_of es n of None \<Rightarrow> Dir [] | Some x \<Rightarrow> x)"
  from "4.prems" obtain x' where x': "mkdirSync_recursive p x = Inr x'"
    and t': "t' = Dir (AList.update n x' es)"
    by (auto simp: x_def split: sum.splits)
  show ?case
  proof (cases "map_of es n")
    case None
    then have "x = Dir []" by (simp add: x_def)
    show ?thesis
    proof (cases p)
      case Nil
      with x' \<open>x = Dir []\<close> t' show ?thesis by (simp add: update_conv')
    next
      case (Cons m r)
      with \<open>x = Dir []\<close> have "lookup x p = None" by simp
      with "4.IH" [OF x' [unfolded x_def]] t' show ?thesis by (simp add: update_conv' x_def)
    qed
  next
    case (Some y)
    with "4.prems"(2) have "lookup x p = None" by (simp add: x_def)
    with "4.IH" [OF x' [unfolded x_def]] t' show ?thesis by (simp add: update_conv' x_def)
  qed
qed simp_all

lemma constructor_fresh:
  "lookup fs cachePath = None \<Longrightarrow> constructor cachePath fs = (Inr (), fs') \<Longrightarrow>
   store_state cachePath fs'"
proof -
  assume n: "lookup fs cachePath = None" and c: "constructor cachePath fs = (Inr (), fs')"
  from n c have "mkdirSync_recursive cachePath fs = Inr fs'"
    by (simp add: constructor_def ensureDir_def existsSync_def split: sum.splits)
  from mkdir_creates [OF this n] show ?thesis by (rule store_state.fresh)
qed

lemma set_then_get_general:
  assumes s: "setItem cachePath (J (JStr k)) v now fs = (Inr (), fs')"
    and na: "\<And>xs. kind_at fs (filePath (getFilePath cachePath k)) \<noteq> IsFile (Parsed (JArr xs))"
  shows "getItem cachePath (J (JStr k)) fs' = (Inr (J v), fs')"
  using s
proof (cases rule: setItem_string_cases)
  case (written fs1 data)
  let ?fp = "filePath (getFilePath cachePath k)"
  have "kind_at fs1 ?fp = kind_at fs ?fp"
    using ensureDir_kind [OF written(1), of ?fp] filePath_not_prefix [of cachePath k] by simp
  with na have "\<And>xs. readFile ?fp fs1 \<noteq> JArr xs"
    by (auto simp: readFile_kind split: kind.splits content.splits)
  with written(2) obtain doc where "data = JObj (AList.update (getMd5 k) (record_of k v now) doc)"
    by (cases "readFile ?fp fs1") auto
  with writeFileSync_kind [OF written(3) [unfolded writeFile_def], of ?fp] show ?thesis
    by (simp add: getItem_string update_conv' truthy_record member_record_value)
qed simp_all

lemma store_state_no_throw:
  assumes "store_state cachePath fs"
  shows "fst (setItem cachePath (J (JStr k)) v now fs) = Inr ()"
    and "\<exists>r. fst (getItem cachePath (J (JStr k)) fs) = Inr r"
    and "fst (removeItem cachePath (J (JStr k)) fs) = Inr ()"
proof -
  note inv = store_state_inv [OF assms]
  from store_inv_setItem [OF inv, of k v now]
  show "fst (setItem cachePath (J (JStr k)) v now fs) = Inr ()" by auto
  from store_inv_removeItem [OF inv, of k]
  show "fst (removeItem cachePath (J (JStr k)) fs) = Inr ()" by auto
  from store_inv_shard [OF inv, of k]
  show "\<exists>r. fst (getItem cachePath (J (JStr k)) fs) = Inr r"
  proof (elim disjE conjE exE)
    assume "kind_at fs (filePath (getFilePath cachePath k)) = Absent"
    then show ?thesis by (simp add: getItem_string)
  next
    fix doc
    assume k: "kind_at fs (filePath (getFilePath cachePath k)) = IsFile (Parsed (JObj doc))"
    show ?thesis
    proof (cases "map_of doc (getMd5 k)")
      case None
      with k show ?thesis by (simp add: getItem_string)
    next
      case (Some item)
      have "\<exists>r. member item ''value'' = Inr r" if "truthy item"
        using that by (cases item) simp_all
      with k Some show ?thesis by (simp add: getItem_string)
    qed
  qed
qed

subsection \<open>What \<^verbatim>\<open>keys\<close> can list\<close>

lemma pushKey_truthy: "\<forall>k \<in> set allKeys. truthy k \<Longrightarrow> \<forall>k \<in> set (pushKey item allKeys). truthy k"
  by (auto simp: pushKey_def split: sum.splits jsvalue.splits)

lemma fileKeys_truthy:
  "fileKeys file fs allKeys = Inr ks \<Longrightarrow> \<forall>k \<in> set allKeys. truthy k \<Longrightarrow> \<forall>k \<in> set ks. truthy k"
proof -
  assume f: "fileKeys file fs allKeys = Inr ks" and a: "\<forall>k \<in> set allKeys. truthy k"
  from f obtain items where ks: "ks = fold pushKey items allKeys"
    by (auto simp: fileKeys_def split: sum.splits)
  have "\<forall>k \<in> set (fold pushKey items allKeys). truthy k"
    by (rule fold_invariant [where P = "\<lambda>l. \<forall>k \<in> set l. truthy k"])
       (use a in \<open>auto dest: pushKey_truthy\<close>)
  with ks show ?thesis by simp
qed

lemma keys_truthy: "fst (keys cachePath fs) = Inr ks \<Longrightarrow> \<forall>k \<in> set ks. truthy k"
proof -
  assume k: "fst (keys cachePath fs) = Inr ks"
  then obtain jsonFiles where ks: "fold (\<lambda>file r. case r of Inl e \<Rightarrow> Inl e
        | Inr allKeys \<Rightarrow> fileKeys file fs allKeys) jsonFiles (Inr []) = Inr ks"
    by (auto simp: keys_def split: sum.splits)
  have "case fold (\<lambda>file r. case r of Inl e \<Rightarrow> Inl e
        | Inr allKeys \<Rightarrow> fileKeys file fs allKeys) jsonFiles (Inr []) of
          Inl e \<Rightarrow> True | Inr l \<Rightarrow> \<forall>k \<in> set l. truthy k"
  proof (rule fold_invariant)
    show "case Inr [] :: error + json list of Inl e \<Rightarrow> True | Inr l \<Rightarrow> \<forall>k \<in> set l. truthy k"
      by simp
  next
    fix f and r :: "error + json list"
    assume "case r of Inl e \<Rightarrow> True | Inr l \<Rightarrow> \<forall>k \<in> set l. truthy k"
    then show "case (case r of Inl e \<Rightarrow> Inl e | Inr allKeys \<Rightarrow> fileKeys f fs allKeys) of
        Inl e \<Rightarrow> True | Inr l \<Rightarrow> \<forall>k \<in> set l. truthy k"
      by (cases r; cases "fileKeys f fs (projr r)") (auto dest: fileKeys_truthy)
  qed
  with ks show ?thesis by simp
qed

lemma keys_never_lists_empty_key: "fst (keys cachePath fs) = Inr ks \<Longrightarrow> JStr '''' \<notin> set ks"
proof
  assume "fst (keys cachePath fs) = Inr ks" and "JStr '''' \<in> set ks"
  with keys_truthy [of cachePath fs ks] have "truthy (JStr '''')" by blast
  then show False by simp
qed

lemma length_is_count:
  "length_property cachePath fs =
     (case fst (keys cachePath fs) of Inl e \<Rightarrow> Inl e | Inr allKeys \<Rightarrow> Inr (length allKeys), fs)"
  using keys_state [of cachePath fs]
  by (cases "keys cachePath fs") (auto simp: length_property_def split: sum.splits)


section \<open>The claims of the specification\<close>

text \<open>
  Claim C1.  In every state of the store, for every string key \<open>k\<close> and every JSON value
  \<open>v\<close>, \<^verbatim>\<open>setItem(k, v)\<close> returns, and \<^verbatim>\<open>getItem(k)\<close> on the state it leaves returns \<open>v\<close>.
\<close>

theorem set_then_get:
  assumes "store_state cachePath fs"
  shows "fst (setItem cachePath (J (JStr k)) v now fs) = Inr () \<and>
         getItem cachePath (J (JStr k)) (snd (setItem cachePath (J (JStr k)) v now fs)) =
           (Inr (J v), snd (setItem cachePath (J (JStr k)) v now fs))"
proof -
  from store_inv_setItem [OF store_state_inv [OF assms], of k v now] obtain fs' doc
    where s: "setItem cachePath (J (JStr k)) v now fs = (Inr (), fs')"
      and f: "kind_at fs' (filePath (getFilePath cachePath k)) =
               IsFile (Parsed (JObj (AList.update (getMd5 k) (record_of k v now) doc)))"
    by blast
  have "getItem cachePath (J (JStr k)) fs' = (Inr (J v), fs')"
    by (simp add: getItem_string f update_conv' truthy_record member_record_value)
  with s show ?thesis by simp
qed

theorem set_then_get_witness:
  "store_state [''cache''] (Dir [(''cache'', Dir [])]) \<and>
   fst (setItem [''cache''] (J (JStr ''username'')) (JStr ''zhangsan'') 1 (Dir [(''cache'', Dir [])]))
     = Inr () \<and>
   fst (getItem [''cache''] (J (JStr ''username''))
     (snd (setItem [''cache''] (J (JStr ''username'')) (JStr ''zhangsan'') 1
        (Dir [(''cache'', Dir [])])))) = Inr (J (JStr ''zhangsan''))"
proof -
  have st: "store_state [''cache''] (Dir [(''cache'', Dir [])])"
    by (rule store_state.fresh) simp
  from set_then_get [OF st, of "''username''" "JStr ''zhangsan''" 1] st show ?thesis by simp
qed

text \<open>
  Claim C2.  The shard location is a function of the root path and the key alone: with
  \<open>d\<close> the MD5 digest of the key, 32 lowercase hexadecimal characters, the folder is
  \<open>root/d\<^sub>1/d\<^sub>2/d\<^sub>3\<close> and the file is \<open>root/d\<^sub>1/d\<^sub>2/d\<^sub>3/d\<^sub>4.json\<close>.
\<close>

theorem shard_path_from_digest:
  "getFilePath cachePath key =
     \<lparr>folderPath = cachePath @ [[getMd5 key ! 0], [getMd5 key ! 1], [getMd5 key ! 2]],
      filePath = cachePath @ [[getMd5 key ! 0], [getMd5 key ! 1], [getMd5 key ! 2],
                              [getMd5 key ! 3] @ ''.json''],
      md5 = getMd5 key\<rparr> \<and>
   length (getMd5 key) = 32 \<and>
   set (getMd5 key) \<subseteq> set ''0123456789abcdef''"
  by (simp only: getFilePath_eq length_getMd5 set_getMd5 append_Cons append_Nil simp_thms)

theorem shard_path_from_digest_witness:
  "getFilePath [''cache''] ''username'' =
     \<lparr>folderPath = [''cache'', ''1'', ''4'', ''c''],
      filePath = [''cache'', ''1'', ''4'', ''c'', ''4.json''],
      md5 = ''14c4b06b824ec593239362517f538b29''\<rparr>"
  using shard_path_from_digest [of "[''cache'']" "''username''"]
  by (simp add: getMd5_username)

text \<open>
  Claim C3.  In every state of the store, for two keys whose digests differ but share their
  first four characters: \<^verbatim>\<open>setItem\<close> of both puts two records, each under its own digest,
  into one and the same shard file, and after \<^verbatim>\<open>removeItem\<close> of the first key
  \<^verbatim>\<open>getItem\<close> of the second still returns its value.
\<close>

theorem shard_sharing:
  fixes cachePath :: path and fs :: node and k1 k2 :: string and v1 v2 :: json and t1 t2 :: int
  assumes st: "store_state cachePath fs"
    and pre: "take 4 (getMd5 k1) = take 4 (getMd5 k2)"
    and neq: "getMd5 k1 \<noteq> getMd5 k2"
  defines "fs1 \<equiv> snd (setItem cachePath (J (JStr k1)) v1 t1 fs)"
  defines "fs2 \<equiv> snd (setItem cachePath (J (JStr k2)) v2 t2 fs1)"
  defines "fs3 \<equiv> snd (removeItem cachePath (J (JStr k1)) fs2)"
  shows "fst (setItem cachePath (J (JStr k1)) v1 t1 fs) = Inr () \<and>
         fst (setItem cachePath (J (JStr k2)) v2 t2 fs1) = Inr () \<and>
         filePath (getFilePath cachePath k1) = filePath (getFilePath cachePath k2) \<and>
         (\<exists>doc. kind_at fs2 (filePath (getFilePath cachePath k1)) = IsFile (Parsed (JObj doc)) \<and>
                map_of doc (getMd5 k1) = Some (record_of k1 v1 t1) \<and>
                map_of doc (getMd5 k2) = Some (record_of k2 v2 t2)) \<and>
         fst (removeItem cachePath (J (JStr k1)) fs2) = Inr () \<and>
         getItem cachePath (J (JStr k2)) fs3 = (Inr (J v2), fs3)"
proof -
  let ?fp = "filePath (getFilePath cachePath k1)"
  let ?d1 = "getMd5 k1" and ?d2 = "getMd5 k2"
  let ?r1 = "record_of k1 v1 t1" and ?r2 = "record_of k2 v2 t2"
  have fp: "filePath (getFilePath cachePath k2) = ?fp"
    using same_prefix_same_file [OF pre, of cachePath] by simp
  from store_inv_setItem [OF store_state_inv [OF st], of k1 v1 t1] obtain s1 doc0
    where a1: "setItem cachePath (J (JStr k1)) v1 t1 fs = (Inr (), s1)"
      and f1: "kind_at s1 ?fp = IsFile (Parsed (JObj (AList.update ?d1 ?r1 doc0)))"
      and i1: "store_inv cachePath s1"
    by blast
  from a1 have s1: "fs1 = s1" by (simp add: fs1_def)
  from store_inv_setItem [OF i1, of k2 v2 t2] obtain s2 doc1
    where a2: "setItem cachePath (J (JStr k2)) v2 t2 s1 = (Inr (), s2)"
      and r2: "readFile ?fp s1 = JObj doc1"
      and f2: "kind_at s2 ?fp = IsFile (Parsed (JObj (AList.update ?d2 ?r2 doc1)))"
      and i2: "store_inv cachePath s2"
    unfolding fp by blast
  from a2 s1 have s2: "fs2 = s2" by (simp add: fs2_def)
  from r2 f1 have doc1: "doc1 = AList.update ?d1 ?r1 doc0" by (simp add: readFile_kind)
  let ?doc2 = "AList.update ?d2 ?r2 (AList.update ?d1 ?r1 doc0)"
  from f2 doc1 have f2': "kind_at s2 ?fp = IsFile (Parsed (JObj ?doc2))" by simp
  have m: "map_of ?doc2 ?d1 = Some ?r1" "map_of ?doc2 ?d2 = Some ?r2"
    using neq by (simp_all add: update_conv')
  from store_inv_removeItem [OF i2, of k1] obtain s3 doc3
    where a3: "removeItem cachePath (J (JStr k1)) s2 = (Inr (), s3)"
      and r3: "readFile ?fp s2 = JObj doc3"
      and f3: "kind_at s3 ?fp = (if AList.delete ?d1 doc3 = [] then Absent
                                  else IsFile (Parsed (JObj (AList.delete ?d1 doc3))))"
    by blast
  from a3 s2 have s3: "fs3 = s3" by (simp add: fs3_def)
  from r3 f2' have doc3: "doc3 = ?doc2" by (simp add: readFile_kind)
  have m3: "map_of (AList.delete ?d1 ?doc2) ?d2 = Some ?r2"
    using neq by (simp add: delete_conv' update_conv')
  then have "AList.delete ?d1 ?doc2 \<noteq> []" by auto
  with f3 doc3 have "kind_at s3 ?fp = IsFile (Parsed (JObj (AList.delete ?d1 ?doc2)))" by simp
  then have g: "getItem cachePath (J (JStr k2)) s3 = (Inr (J v2), s3)"
    by (simp add: getItem_string fp m3 truthy_record member_record_value)
  from a1 a2 a3 s1 s2 s3 fp f2' m g show ?thesis by auto
qed

theorem shard_sharing_witness:
  "store_state [''cache''] (Dir [(''cache'', Dir [])]) \<and>
   take 4 (getMd5 ''key171'') = take 4 (getMd5 ''key315'') \<and>
   getMd5 ''key171'' \<noteq> getMd5 ''key315'' \<and>
   filePath (getFilePath [''cache''] ''key171'') = filePath (getFilePath [''cache''] ''key315'') \<and>
   getItem [''cache''] (J (JStr ''key315''))
     (snd (removeItem [''cache''] (J (JStr ''key171''))
       (snd (setItem [''cache''] (J (JStr ''key315'')) (JNum 2) 20
         (snd (setItem [''cache''] (J (JStr ''key171'')) (JNum 1) 10
           (Dir [(''cache'', Dir [])]))))))) =
     (Inr (J (JNum 2)),
      (snd (removeItem [''cache''] (J (JStr ''key171''))
       (snd (setItem [''cache''] (J (JStr ''key315'')) (JNum 2) 20
         (snd (setItem [''cache''] (J (JStr ''key171'')) (JNum 1) 10
           (Dir [(''cache'', Dir [])]))))))))"
proof -
  have st: "store_state [''cache''] (Dir [(''cache'', Dir [])])"
    by (rule store_state.fresh) simp
  have pre: "take 4 (getMd5 ''key171'') = take 4 (getMd5 ''key315'')"
    by (simp add: getMd5_key171 getMd5_key315)
  have neq: "getMd5 ''key171'' \<noteq> getMd5 ''key315''"
    by (simp add: getMd5_key171 getMd5_key315)
  from shard_sharing [OF st pre neq, of "JNum 1" 10 "JNum 2" 20] st pre neq
  show ?thesis by simp
qed

text \<open>
  Claim C4.  No operation, whatever it returns or throws, makes a file with the empty
  document: if no file of the file system holds \<^verbatim>\<open>{}\<close> before an operation, none
  does after it.  And \<^verbatim>\<open>removeItem(k)\<close> on a shard file whose document holds the record of
  \<open>k\<close> and nothing else returns and leaves no file at that path.
\<close>

theorem no_empty_shard_persists:
  "(no_empty_shard fs \<longrightarrow> no_empty_shard (state_after cachePath op fs)) \<and>
   (kind_at fs (filePath (getFilePath cachePath k)) =
      IsFile (Parsed (JObj [(getMd5 k, record_of k v t)])) \<longrightarrow>
    fst (removeItem cachePath (J (JStr k)) fs) = Inr () \<and>
    kind_at (snd (removeItem cachePath (J (JStr k)) fs)) (filePath (getFilePath cachePath k)) =
      Absent)"
proof (rule conjI; rule impI)
  assume n: "no_empty_shard fs"
  have "(p, Parsed (JObj [])) \<in> files (state_after cachePath op fs) \<Longrightarrow>
      (p, Parsed (JObj [])) \<in> files fs" for p
  proof (cases op)
    case (SetItem key val now)
    then show "(p, Parsed (JObj [])) \<in> files (state_after cachePath op fs) \<Longrightarrow> ?thesis"
      by (auto dest: setItem_no_empty)
  next
    case (RemoveItem key)
    then show "(p, Parsed (JObj [])) \<in> files (state_after cachePath op fs) \<Longrightarrow> ?thesis"
      by (auto dest: removeItem_no_empty)
  next
    case Clear
    then show "(p, Parsed (JObj [])) \<in> files (state_after cachePath op fs) \<Longrightarrow> ?thesis"
      using clear_files [of cachePath fs] by auto
  qed (simp_all add: getItem_state keys_state length_state)
  with n show "no_empty_shard (state_after cachePath op fs)"
    unfolding no_empty_shard_def by blast
next
  let ?fp = "filePath (getFilePath cachePath k)"
  assume f: "kind_at fs ?fp = IsFile (Parsed (JObj [(getMd5 k, record_of k v t)]))"
  from unlinkSync_succeeds [of fs "folderPath (getFilePath cachePath k)"] f
  obtain fs' where u: "unlinkSync ?fp fs = Inr fs'" by (auto simp: filePath_eq)
  from f u have "removeItem cachePath (J (JStr k)) fs = (Inr (), fs')"
    by (simp add: removeItem_def Let_def md5_eq existsSync_kind readFile_kind truthy_record)
  with unlinkSync_kind(1) [OF u, of ?fp]
  show "fst (removeItem cachePath (J (JStr k)) fs) = Inr () \<and>
    kind_at (snd (removeItem cachePath (J (JStr k)) fs)) ?fp = Absent"
    by simp
qed

theorem no_empty_shard_persists_witness:
  "no_empty_shard (Dir [(''cache'', Dir [])]) \<and>
   no_empty_shard (state_after [''cache''] (SetItem (J (JStr ''username'')) (JStr ''zhangsan'') 1)
     (Dir [(''cache'', Dir [])])) \<and>
   kind_at (Dir [(''cache'', Dir [(''1'', Dir [(''4'', Dir [(''c'', Dir [(''4.json'',
       File (Parsed (JObj [(''14c4b06b824ec593239362517f538b29'',
                            record_of ''username'' (JStr ''zhangsan'') 1)])))])])])])])
     (filePath (getFilePath [''cache''] ''username'')) =
     IsFile (Parsed (JObj [(getMd5 ''username'', record_of ''username'' (JStr ''zhangsan'') 1)])) \<and>
   fst (removeItem [''cache''] (J (JStr ''username''))
     (Dir [(''cache'', Dir [(''1'', Dir [(''4'', Dir [(''c'', Dir [(''4.json'',
       File (Parsed (JObj [(''14c4b06b824ec593239362517f538b29'',
                            record_of ''username'' (JStr ''zhangsan'') 1)])))])])])])])) =
     Inr () \<and>
   kind_at (snd (removeItem [''cache''] (J (JStr ''username''))
     (Dir [(''cache'', Dir [(''1'', Dir [(''4'', Dir [(''c'', Dir [(''4.json'',
       File (Parsed (JObj [(''14c4b06b824ec593239362517f538b29'',
                            record_of ''username'' (JStr ''zhangsan'') 1)])))])])])])])))
     [''cache'', ''1'', ''4'', ''c'', ''4.json''] = Absent"
proof -
  let ?fs = "Dir [(''cache'', Dir [])]"
  let ?fs1 = "Dir [(''cache'', Dir [(''1'', Dir [(''4'', Dir [(''c'', Dir [(''4.json'',
       File (Parsed (JObj [(''14c4b06b824ec593239362517f538b29'',
                            record_of ''username'' (JStr ''zhangsan'') 1)])))])])])])]"
  have fp: "filePath (getFilePath [''cache''] ''username'') =
      [''cache'', ''1'', ''4'', ''c'', ''4.json'']"
    by (simp add: getFilePath_eq getMd5_username)
  have "kind_at ?fs p \<noteq> IsFile c" for p c
  proof (cases p)
    case Nil
    then show ?thesis by (simp add: kind_at_Nil)
  next
    case (Cons n r)
    then show ?thesis
      by (cases r) (simp_all add: kind_at_Cons_Dir kind_at_Nil)
  qed
  then have n: "no_empty_shard ?fs" by (simp add: no_empty_shard_def files_iff)
  have h: "kind_at ?fs1 (filePath (getFilePath [''cache''] ''username'')) =
     IsFile (Parsed (JObj [(getMd5 ''username'', record_of ''username'' (JStr ''zhangsan'') 1)]))"
    by (simp add: fp kind_at_def getMd5_username)
  from no_empty_shard_persists [of ?fs "[''cache'']"
      "SetItem (J (JStr ''username'')) (JStr ''zhangsan'') 1"]
    no_empty_shard_persists [of ?fs1 "[''cache'']" _ "''username''" "JStr ''zhangsan''" 1]
    n h
  show ?thesis by (simp add: fp del: state_after.simps)
qed

text \<open>
  Claim C5.  For a string key whose shard file does not exist, or whose shard document has
  no property for the digest of the key, \<^verbatim>\<open>getItem\<close> returns \<^verbatim>\<open>null\<close> and throws
  nothing; when the document holds a record of the key with the value \<^verbatim>\<open>null\<close>, it
  returns \<^verbatim>\<open>null\<close> as well.
\<close>

theorem get_missing_returns_null:
  "(kind_at fs (filePath (getFilePath cachePath k)) = Absent \<longrightarrow>
      getItem cachePath (J (JStr k)) fs = (Inr (J JNull), fs)) \<and>
   (kind_at fs (filePath (getFilePath cachePath k)) = IsFile (Parsed (JObj doc)) \<and>
    map_of doc (getMd5 k) = None \<longrightarrow>
      getItem cachePath (J (JStr k)) fs = (Inr (J JNull), fs)) \<and>
   (kind_at fs (filePath (getFilePath cachePath k)) = IsFile (Parsed (JObj doc)) \<and>
    map_of doc (getMd5 k) = Some (record_of k JNull t) \<longrightarrow>
      getItem cachePath (J (JStr k)) fs = (Inr (J JNull), fs))"
  by (simp add: getItem_string truthy_record member_record_value)

theorem get_missing_returns_null_witness:
  "kind_at (Dir [(''cache'', Dir [])]) (filePath (getFilePath [''cache''] ''username'')) = Absent \<and>
   getItem [''cache''] (J (JStr ''username'')) (Dir [(''cache'', Dir [])]) =
     (Inr (J JNull), Dir [(''cache'', Dir [])]) \<and>
   getItem [''cache''] (J (JStr ''username''))
     (Dir [(''cache'', Dir [(''1'', Dir [(''4'', Dir [(''c'', Dir [(''4.json'',
        File (Parsed (JObj [(''1545201232175b0c7f5eacfbc1af0196'',
                             record_of ''key171'' (JNum 1) 0)])))])])])])]) =
     (Inr (J JNull),
      Dir [(''cache'', Dir [(''1'', Dir [(''4'', Dir [(''c'', Dir [(''4.json'',
        File (Parsed (JObj [(''1545201232175b0c7f5eacfbc1af0196'',
                             record_of ''key171'' (JNum 1) 0)])))])])])])]) \<and>
   getItem [''cache''] (J (JStr ''username''))
     (Dir [(''cache'', Dir [(''1'', Dir [(''4'', Dir [(''c'', Dir [(''4.json'',
        File (Parsed (JObj [(''14c4b06b824ec593239362517f538b29'',
                             record_of ''username'' JNull 0)])))])])])])]) =
     (Inr (J JNull),
      Dir [(''cache'', Dir [(''1'', Dir [(''4'', Dir [(''c'', Dir [(''4.json'',
        File (Parsed (JObj [(''14c4b06b824ec593239362517f538b29'',
                             record_of ''username'' JNull 0)])))])])])])])"
  using
    get_missing_returns_null [of "Dir [(''cache'', Dir [])]" "[''cache'']" "''username''"]
    get_missing_returns_null [of
      "Dir [(''cache'', Dir [(''1'', Dir [(''4'', Dir [(''c'', Dir [(''4.json'',
        File (Parsed (JObj [(''1545201232175b0c7f5eacfbc1af0196'',
                             record_of ''key171'' (JNum 1) 0)])))])])])])]"
      "[''cache'']" "''username''"
      "[(''1545201232175b0c7f5eacfbc1af0196'', record_of ''key171'' (JNum 1) 0)]"]
    get_missing_returns_null [of
      "Dir [(''cache'', Dir [(''1'', Dir [(''4'', Dir [(''c'', Dir [(''4.json'',
        File (Parsed (JObj [(''14c4b06b824ec593239362517f538b29'',
                             record_of ''username'' JNull 0)])))])])])])]"
      "[''cache'']" "''username''"
      "[(''14c4b06b824ec593239362517f538b29'', record_of ''username'' JNull 0)]" 0]
  by (simp add: getFilePath_eq getMd5_username kind_at_def)

text \<open>
  Claim C6.  With a key that is not a string, \<^verbatim>\<open>setItem\<close>, \<^verbatim>\<open>getItem\<close> and
  \<^verbatim>\<open>removeItem\<close> throw the \<^verbatim>\<open>TypeError\<close> of the key check and leave the file system as
  it is; with a key that is a string, none of them throws that error, and in a state of the
  store none of them throws at all.
\<close>

theorem key_type_check:
  "(\<not> is_string key \<longrightarrow>
      setItem cachePath key val now fs = (Inl key_error, fs) \<and>
      getItem cachePath key fs = (Inl key_error, fs) \<and>
      removeItem cachePath key fs = (Inl key_error, fs)) \<and>
   (is_string key \<longrightarrow>
      fst (setItem cachePath key val now fs) \<noteq> Inl key_error \<and>
      fst (getItem cachePath key fs) \<noteq> Inl key_error \<and>
      fst (removeItem cachePath key fs) \<noteq> Inl key_error) \<and>
   (is_string key \<and> store_state cachePath fs \<longrightarrow>
      fst (setItem cachePath key val now fs) = Inr () \<and>
      (\<exists>r. fst (getItem cachePath key fs) = Inr r) \<and>
      fst (removeItem cachePath key fs) = Inr ())"
proof (cases "\<exists>k. key = J (JStr k)")
  case False
  then have "\<not> is_string key" by (cases key rule: is_string.cases) auto
  with False show ?thesis
    by (simp add: setItem_nonstring getItem_nonstring removeItem_nonstring)
next
  case True
  then obtain k where k: "key = J (JStr k)" by blast
  have "fst (setItem cachePath (J (JStr k)) val now fs) \<noteq> Inl key_error"
  proof -
    obtain r fs' where s: "setItem cachePath (J (JStr k)) val now fs = (r, fs')"
      by (cases "setItem cachePath (J (JStr k)) val now fs")
    from s have "r \<noteq> Inl key_error"
      by (cases rule: setItem_string_cases)
         (auto simp: key_error_def dest: ensureDir_error writeFile_error assign_error)
    with s show ?thesis by simp
  qed
  moreover have "fst (getItem cachePath (J (JStr k)) fs) \<noteq> Inl key_error"
    by (auto simp: getItem_string key_error_def
        split: kind.splits content.splits sum.splits jsvalue.splits
        dest: member_error)
  moreover have "fst (removeItem cachePath (J (JStr k)) fs) \<noteq> Inl key_error"
  proof -
    obtain r fs' where s: "removeItem cachePath (J (JStr k)) fs = (r, fs')"
      by (cases "removeItem cachePath (J (JStr k)) fs")
    from s have "r \<noteq> Inl key_error"
      by (cases rule: removeItem_string_cases) auto
    with s show ?thesis by simp
  qed
  ultimately show ?thesis
    using k store_state_no_throw(1) [of cachePath fs k val now]
      store_state_no_throw(2) [of cachePath fs k] store_state_no_throw(3) [of cachePath fs k]
    by simp
qed

theorem key_type_check_witness:
  "setItem [''cache''] (J (JNum 123)) (JStr ''value'') 0 (Dir [(''cache'', Dir [])]) =
     (Inl (TypeError ''Key must be a string''), Dir [(''cache'', Dir [])]) \<and>
   getItem [''cache''] (J (JNum 123)) (Dir [(''cache'', Dir [])]) =
     (Inl (TypeError ''Key must be a string''), Dir [(''cache'', Dir [])]) \<and>
   removeItem [''cache''] (J (JNum 123)) (Dir [(''cache'', Dir [])]) =
     (Inl (TypeError ''Key must be a string''), Dir [(''cache'', Dir [])]) \<and>
   store_state [''cache''] (Dir [(''cache'', Dir [])]) \<and>
   fst (setItem [''cache''] (J (JStr ''k'')) (JStr ''value'') 0 (Dir [(''cache'', Dir [])]))
     = Inr () \<and>
   fst (getItem [''cache''] (J (JStr ''k'')) (Dir [(''cache'', Dir [])]))
     \<noteq> Inl (TypeError ''Key must be a string'') \<and>
   fst (removeItem [''cache''] (J (JStr ''k'')) (Dir [(''cache'', Dir [])])) = Inr ()"
proof -
  have st: "store_state [''cache''] (Dir [(''cache'', Dir [])])"
    by (rule store_state.fresh) simp
  from key_type_check [of "J (JNum 123)" "[''cache'']" "JStr ''value''" 0 "Dir [(''cache'', Dir [])]"]
    key_type_check [of "J (JStr ''k'')" "[''cache'']" "JStr ''value''" 0 "Dir [(''cache'', Dir [])]"]
    st
  show ?thesis by (simp add: key_error_def)
qed

text \<open>
  Claim C7.  Where the shard file of a key exists and does not parse, no operation throws
  for it, and each treats it as the empty document: \<^verbatim>\<open>_readFile\<close> gives \<^verbatim>\<open>{}\<close>;
  \<^verbatim>\<open>getItem\<close> returns \<^verbatim>\<open>null\<close>; \<^verbatim>\<open>setItem\<close> returns and writes a document with the new
  record alone; \<^verbatim>\<open>removeItem\<close> returns and changes nothing; and \<^verbatim>\<open>keys\<close> takes no key
  from the file: it returns or throws what it does when that file holds \<^verbatim>\<open>{}\<close>.
\<close>

theorem corrupt_shard_is_empty:
  assumes "kind_at fs (filePath (getFilePath cachePath k)) = IsFile Unparsable"
  shows "readFile (filePath (getFilePath cachePath k)) fs = JObj [] \<and>
         getItem cachePath (J (JStr k)) fs = (Inr (J JNull), fs) \<and>
         fst (setItem cachePath (J (JStr k)) v now fs) = Inr () \<and>
         kind_at (snd (setItem cachePath (J (JStr k)) v now fs)) (filePath (getFilePath cachePath k)) =
           IsFile (Parsed (JObj [(getMd5 k, record_of k v now)])) \<and>
         removeItem cachePath (J (JStr k)) fs = (Inr (), fs) \<and>
         fileKeys (filePath (getFilePath cachePath k)) fs allKeys = Inr allKeys \<and>
         (\<exists>fs0. writeFileSync (filePath (getFilePath cachePath k)) (Parsed (JObj [])) fs = Inr fs0 \<and>
                fst (keys cachePath fs) = fst (keys cachePath fs0))"
proof -
  let ?fp = "filePath (getFilePath cachePath k)"
  let ?dp = "folderPath (getFilePath cachePath k)"
  let ?doc = "JObj [(getMd5 k, record_of k v now)]"
  have r: "readFile ?fp fs = JObj []" using assms by (simp add: readFile_kind)
  have g: "getItem cachePath (J (JStr k)) fs = (Inr (J JNull), fs)"
    using assms by (simp add: getItem_string)
  have d: "kind_at fs ?dp = IsDir"
    using assms kind_at_above [of fs ?dp "[getMd5 k ! 3 # ''.json'']"] by (simp add: filePath_eq)
  then have e: "ensureDir ?dp fs = Inr fs" by (simp add: ensureDir_def existsSync_kind)
  from writeFileSync_succeeds [of fs ?dp "getMd5 k ! 3 # ''.json''"] d assms
  have ex: "\<exists>fs'. writeFileSync ?fp c fs = Inr fs'" for c by (simp add: filePath_eq)
  from ex obtain fs' where w: "writeFileSync ?fp (Parsed ?doc) fs = Inr fs'" by blast
  have s: "setItem cachePath (J (JStr k)) v now fs = (Inr (), fs')"
    using e r w by (simp add: setItem_def Let_def md5_eq writeFile_def)
  have rm: "removeItem cachePath (J (JStr k)) fs = (Inr (), fs)"
    using assms r by (simp add: removeItem_def Let_def md5_eq existsSync_kind)
  have fk: "fileKeys ?fp fs allKeys = Inr allKeys" using r by (simp add: fileKeys_def)
  from ex obtain fs0 where w0: "writeFileSync ?fp (Parsed (JObj [])) fs = Inr fs0" by blast
  from keys_rewrite_empty [OF w0 assms] w0
  have "\<exists>fs0. writeFileSync ?fp (Parsed (JObj [])) fs = Inr fs0 \<and>
      fst (keys cachePath fs) = fst (keys cachePath fs0)"
    by auto
  with r g s writeFileSync_kind [OF w, of ?fp] rm fk show ?thesis by simp
qed

theorem corrupt_shard_is_empty_witness:
  "kind_at (Dir [(''cache'', Dir [(''1'', Dir [(''4'', Dir [(''c'', Dir [(''4.json'',
       File Unparsable)])])])])])
     (filePath (getFilePath [''cache''] ''username'')) = IsFile Unparsable \<and>
   getItem [''cache''] (J (JStr ''username''))
     (Dir [(''cache'', Dir [(''1'', Dir [(''4'', Dir [(''c'', Dir [(''4.json'',
       File Unparsable)])])])])]) =
     (Inr (J JNull),
      Dir [(''cache'', Dir [(''1'', Dir [(''4'', Dir [(''c'', Dir [(''4.json'',
       File Unparsable)])])])])]) \<and>
   fst (setItem [''cache''] (J (JStr ''username'')) (JStr ''zhangsan'') 1
     (Dir [(''cache'', Dir [(''1'', Dir [(''4'', Dir [(''c'', Dir [(''4.json'',
       File Unparsable)])])])])])) = Inr () \<and>
   kind_at (snd (setItem [''cache''] (J (JStr ''username'')) (JStr ''zhangsan'') 1
     (Dir [(''cache'', Dir [(''1'', Dir [(''4'', Dir [(''c'', Dir [(''4.json'',
       File Unparsable)])])])])])))
     [''cache'', ''1'', ''4'', ''c'', ''4.json''] =
     IsFile (Parsed (JObj [(''14c4b06b824ec593239362517f538b29'',
       record_of ''username'' (JStr ''zhangsan'') 1)])) \<and>
   removeItem [''cache''] (J (JStr ''username''))
     (Dir [(''cache'', Dir [(''1'', Dir [(''4'', Dir [(''c'', Dir [(''4.json'',
       File Unparsable)])])])])]) =
     (Inr (),
      Dir [(''cache'', Dir [(''1'', Dir [(''4'', Dir [(''c'', Dir [(''4.json'',
       File Unparsable)])])])])])"
proof -
  let ?fs = "Dir [(''cache'', Dir [(''1'', Dir [(''4'', Dir [(''c'', Dir [(''4.json'',
       File Unparsable)])])])])]"
  have fp: "filePath (getFilePath [''cache''] ''username'') =
      [''cache'', ''1'', ''4'', ''c'', ''4.json'']"
    by (simp add: getFilePath_eq getMd5_username)
  have h: "kind_at ?fs (filePath (getFilePath [''cache''] ''username'')) = IsFile Unparsable"
    by (simp add: fp kind_at_def)
  from corrupt_shard_is_empty [OF h, of "JStr ''zhangsan''" 1] h show ?thesis
    by (simp add: fp getMd5_username)
qed

text \<open>
  Claim C8, at the key \<^verbatim>\<open>""\<close>.  On a fresh store, \<^verbatim>\<open>setItem("", "v")\<close> writes a record
  with the key \<^verbatim>\<open>""\<close> into the shard \<^verbatim>\<open>d/4/1/d.json\<close>, and \<^verbatim>\<open>getItem("")\<close> returns its
  value; but \<^verbatim>\<open>keys()\<close> returns the empty list and \<^verbatim>\<open>length\<close> is 0, because the test
  \<^verbatim>\<open>item && item.key\<close> takes the empty string for a missing key.
\<close>

theorem keys_omits_empty_key:
  "snd (setItem [''cache''] (J (JStr '''')) (JStr ''v'') 1 (Dir [(''cache'', Dir [])])) =
     Dir [(''cache'', Dir [(''d'', Dir [(''4'', Dir [(''1'', Dir [(''d.json'',
       File (Parsed (JObj [(''d41d8cd98f00b204e9800998ecf8427e'',
         JObj [(''key'', JStr ''''), (''value'', JStr ''v''), (''timestamp'', JNum 1)])])))])])])])] \<and>
   fst (getItem [''cache''] (J (JStr ''''))
     (snd (setItem [''cache''] (J (JStr '''')) (JStr ''v'') 1 (Dir [(''cache'', Dir [])])))) =
     Inr (J (JStr ''v'')) \<and>
   fst (keys [''cache'']
     (snd (setItem [''cache''] (J (JStr '''')) (JStr ''v'') 1 (Dir [(''cache'', Dir [])])))) =
     Inr [] \<and>
   fst (length_property [''cache'']
     (snd (setItem [''cache''] (J (JStr '''')) (JStr ''v'') 1 (Dir [(''cache'', Dir [])])))) =
     Inr 0"
  by (simp add: setItem_empty_key) (simp add: fs_eval getMd5_empty record_of_def)

text \<open>
  Claim C9.  In every state of the store \<^verbatim>\<open>clear()\<close> returns; afterwards \<^verbatim>\<open>keys()\<close> is
  empty, \<^verbatim>\<open>length\<close> is 0, \<^verbatim>\<open>getItem\<close> of any key returns \<^verbatim>\<open>null\<close>, and the root is still
  there, an empty directory.  Where the root does not exist, and where it is empty,
  \<^verbatim>\<open>clear()\<close> returns and changes nothing.
\<close>

theorem clear_empties_store:
  "(store_state cachePath fs \<longrightarrow>
      fst (clear cachePath fs) = Inr () \<and>
      keys cachePath (snd (clear cachePath fs)) = (Inr [], snd (clear cachePath fs)) \<and>
      length_property cachePath (snd (clear cachePath fs)) = (Inr 0, snd (clear cachePath fs)) \<and>
      (\<forall>k. getItem cachePath (J (JStr k)) (snd (clear cachePath fs)) =
             (Inr (J JNull), snd (clear cachePath fs))) \<and>
      lookup (snd (clear cachePath fs)) cachePath = Some (Dir [])) \<and>
   (lookup fs cachePath = None \<longrightarrow> clear cachePath fs = (Inr (), fs)) \<and>
   (lookup fs cachePath = Some (Dir []) \<longrightarrow> clear cachePath fs = (Inr (), fs))"
proof (intro conjI impI)
  assume st: "store_state cachePath fs"
  from store_inv_clear [OF store_state_inv [OF st]] obtain fs'
    where c: "clear cachePath fs = (Inr (), fs')"
      and e: "lookup fs' cachePath = Some (Dir [])"
      and k: "\<And>q. kind_at fs' q = (if strict_prefix cachePath q then Absent else kind_at fs q)"
    by blast
  have ks: "keys cachePath fs' = (Inr [], fs')"
    by (simp add: keys_def getAllJsonFiles_def e)
  have g: "getItem cachePath (J (JStr key)) fs' = (Inr (J JNull), fs')" for key
  proof -
    have "strict_prefix cachePath (filePath (getFilePath cachePath key))"
      by (simp add: getFilePath_eq strict_prefix_def)
    with k have "kind_at fs' (filePath (getFilePath cachePath key)) = Absent" by simp
    then show ?thesis by (simp add: getItem_string)
  qed
  from c show "fst (clear cachePath fs) = Inr ()" by simp
  from c ks show "keys cachePath (snd (clear cachePath fs)) = (Inr [], snd (clear cachePath fs))"
    by simp
  from c ks show "length_property cachePath (snd (clear cachePath fs)) =
      (Inr 0, snd (clear cachePath fs))"
    by (simp add: length_property_def)
  from c g show "\<forall>k. getItem cachePath (J (JStr k)) (snd (clear cachePath fs)) =
      (Inr (J JNull), snd (clear cachePath fs))"
    by simp
  from c e show "lookup (snd (clear cachePath fs)) cachePath = Some (Dir [])" by simp
next
  assume "lookup fs cachePath = None"
  then show "clear cachePath fs = (Inr (), fs)" by (rule clear_absent)
next
  assume "lookup fs cachePath = Some (Dir [])"
  then show "clear cachePath fs = (Inr (), fs)" by (rule clear_empty)
qed

theorem clear_empties_store_witness:
  "store_state [''cache'']
     (state_after [''cache''] (SetItem (J (JStr ''username'')) (JStr ''zhangsan'') 1)
        (Dir [(''cache'', Dir [])])) \<and>
   fst (clear [''cache'']
     (state_after [''cache''] (SetItem (J (JStr ''username'')) (JStr ''zhangsan'') 1)
        (Dir [(''cache'', Dir [])]))) = Inr () \<and>
   fst (keys [''cache''] (snd (clear [''cache'']
     (state_after [''cache''] (SetItem (J (JStr ''username'')) (JStr ''zhangsan'') 1)
        (Dir [(''cache'', Dir [])]))))) = Inr [] \<and>
   fst (getItem [''cache''] (J (JStr ''username'')) (snd (clear [''cache'']
     (state_after [''cache''] (SetItem (J (JStr ''username'')) (JStr ''zhangsan'') 1)
        (Dir [(''cache'', Dir [])]))))) = Inr (J JNull) \<and>
   lookup (Dir []) [''cache''] = None \<and>
   clear [''cache''] (Dir []) = (Inr (), Dir []) \<and>
   lookup (Dir [(''cache'', Dir [])]) [''cache''] = Some (Dir []) \<and>
   clear [''cache''] (Dir [(''cache'', Dir [])]) = (Inr (), Dir [(''cache'', Dir [])])"
proof -
  have "store_state [''cache''] (Dir [(''cache'', Dir [])])"
    by (rule store_state.fresh) simp
  then have st: "store_state [''cache'']
     (state_after [''cache''] (SetItem (J (JStr ''username'')) (JStr ''zhangsan'') 1)
        (Dir [(''cache'', Dir [])]))"
    by (rule store_state.step)
  have n: "lookup (Dir []) [''cache''] = None"
    and e: "lookup (Dir [(''cache'', Dir [])]) [''cache''] = Some (Dir [])"
    by simp_all
  from clear_empties_store [of "[''cache'']"
      "state_after [''cache''] (SetItem (J (JStr ''username'')) (JStr ''zhangsan'') 1)
        (Dir [(''cache'', Dir [])])"]
    clear_empties_store [of "[''cache'']" "Dir []"]
    clear_empties_store [of "[''cache'']" "Dir [(''cache'', Dir [])]"]
    st n e
  show ?thesis by (simp del: state_after.simps lookup.simps)
qed

text \<open>
  Claim C10.  In every state of the store, each file below the root is a well-formed
  shard: each property of its document is the record of a key, stored under the MD5 digest
  of that key, and the file is the one resolved from that key.  And \<^verbatim>\<open>setItem\<close> of a key
  does not create, change or delete any file other than the one resolved from the key.
\<close>

theorem records_in_their_shards:
  "(store_state cachePath fs \<longrightarrow>
      (\<forall>p c. (p, c) \<in> files fs \<and> prefix cachePath p \<longrightarrow> shard_ok cachePath p c)) \<and>
   (\<forall>q c. q \<noteq> filePath (getFilePath cachePath k) \<longrightarrow>
      ((q, c) \<in> files (snd (setItem cachePath (J (JStr k)) v now fs)) \<longleftrightarrow> (q, c) \<in> files fs))"
proof (intro conjI impI allI)
  fix p c
  assume st: "store_state cachePath fs" and f: "(p, c) \<in> files fs \<and> prefix cachePath p"
  then obtain r where "p = cachePath @ r" by (auto simp: prefix_def)
  with store_state_inv [OF st] f show "shard_ok cachePath p c"
    by (simp add: store_inv_def files_iff)
next
  fix q c
  assume "q \<noteq> filePath (getFilePath cachePath k)"
  then show "(q, c) \<in> files (snd (setItem cachePath (J (JStr k)) v now fs)) \<longleftrightarrow> (q, c) \<in> files fs"
    by (rule setItem_files_frame)
qed

theorem records_in_their_shards_witness:
  "store_state [''cache'']
     (state_after [''cache''] (SetItem (J (JStr ''username'')) (JStr ''zhangsan'') 1)
        (Dir [(''cache'', Dir [])])) \<and>
   ([''cache'', ''1'', ''4'', ''c'', ''4.json''],
    Parsed (JObj [(''14c4b06b824ec593239362517f538b29'',
                   record_of ''username'' (JStr ''zhangsan'') 1)]))
     \<in> files (state_after [''cache''] (SetItem (J (JStr ''username'')) (JStr ''zhangsan'') 1)
                (Dir [(''cache'', Dir [])])) \<and>
   prefix [''cache''] [''cache'', ''1'', ''4'', ''c'', ''4.json''] \<and>
   shard_ok [''cache''] [''cache'', ''1'', ''4'', ''c'', ''4.json'']
     (Parsed (JObj [(''14c4b06b824ec593239362517f538b29'',
                     record_of ''username'' (JStr ''zhangsan'') 1)])) \<and>
   [''cache'', ''1'', ''4'', ''c'', ''4.json''] \<noteq> filePath (getFilePath [''cache''] ''key171'') \<and>
   ([''cache'', ''1'', ''4'', ''c'', ''4.json''],
    Parsed (JObj [(''14c4b06b824ec593239362517f538b29'',
                   record_of ''username'' (JStr ''zhangsan'') 1)]))
     \<in> files (snd (setItem [''cache''] (J (JStr ''key171'')) (JNum 1) 2
          (state_after [''cache''] (SetItem (J (JStr ''username'')) (JStr ''zhangsan'') 1)
             (Dir [(''cache'', Dir [])]))))"
proof -
  let ?s1 = "state_after [''cache''] (SetItem (J (JStr ''username'')) (JStr ''zhangsan'') 1)
        (Dir [(''cache'', Dir [])])"
  let ?p = "[''cache'', ''1'', ''4'', ''c'', ''4.json'']"
  let ?c = "Parsed (JObj [(''14c4b06b824ec593239362517f538b29'',
                   record_of ''username'' (JStr ''zhangsan'') 1)])"
  have "store_state [''cache''] (Dir [(''cache'', Dir [])])"
    by (rule store_state.fresh) simp
  then have st: "store_state [''cache''] ?s1" by (rule store_state.step)
  have f: "(?p, ?c) \<in> files ?s1"
    by (simp add: setItem_username files_iff kind_at_def)
  have pre: "prefix [''cache''] ?p" by simp
  have ne: "?p \<noteq> filePath (getFilePath [''cache''] ''key171'')"
    by (simp add: getFilePath_eq getMd5_key171)
  from records_in_their_shards [of "[''cache'']" ?s1 "''key171''" "JNum 1" 2] st f pre ne
  show ?thesis by (simp del: state_after.simps)
qed

end
